theory Spec2Isabelle
  imports Main
begin

section \<open>JavaScript strings\<close>

text \<open>
  A JavaScript string is a sequence of UTF-16 code units. The model writes it as a
  \<^typ>\<open>string\<close>: one \<^typ>\<open>char\<close> stands for one code unit, and the documents and
  URLs considered are those whose code units are below 256. Every operation below
  compares, searches or counts code units, so the functions are the source's on this range.
\<close>

text \<open>\<^verbatim>\<open>s.startsWith(p)\<close>\<close>

definition startsWith :: "string \<Rightarrow> string \<Rightarrow> bool" where
  "startsWith s p = (take (length p) s = p)"

text \<open>\<^verbatim>\<open>s.endsWith(p)\<close>\<close>

definition endsWith :: "string \<Rightarrow> string \<Rightarrow> bool" where
  "endsWith s p = (length p \<le> length s \<and> drop (length s - length p) s = p)"

text \<open>\<^verbatim>\<open>s.includes(p)\<close>: \<open>p\<close> occurs in \<open>s\<close> at some position.\<close>

fun includes_str :: "string \<Rightarrow> string \<Rightarrow> bool" where
  "includes_str [] p = (p = [])"
| "includes_str (c # cs) p = (startsWith (c # cs) p \<or> includes_str cs p)"

text \<open>\<^verbatim>\<open>s.split(c)\<close> for a separator of one code unit; the result is never empty.\<close>

fun splitChar :: "char \<Rightarrow> string \<Rightarrow> string list" where
  "splitChar c [] = [[]]"
| "splitChar c (x # xs) =
     (if x = c then [] # splitChar c xs
      else (case splitChar c xs of [] \<Rightarrow> [[x]] | y # ys \<Rightarrow> (x # y) # ys))"

text \<open>\<^verbatim>\<open>s.split(c)[0]\<close>: the part of \<open>s\<close> before the first \<open>c\<close>.\<close>

definition splitFirst :: "char \<Rightarrow> string \<Rightarrow> string" where
  "splitFirst c s = (case splitChar c s of [] \<Rightarrow> [] | y # ys \<Rightarrow> y)"

section \<open>PathMapper: \<^verbatim>\<open>safeFileName\<close>\<close>

text \<open>
  \<^verbatim>\<open>
  function safeFileName(urlPath) {
    let p = urlPath.split("?")[0].split("#")[0];
    if (p.endsWith("/")) p = p.slice(0, -1);
    if (p === "") return "index";
    return p.replace(/^\/+/, "");
  }
  \<close>
  The three scripts carry the same copy of this function.
\<close>

definition safeFileName :: "string \<Rightarrow> string" where
  "safeFileName urlPath =
     (let p = splitFirst CHR ''#'' (splitFirst CHR ''?'' urlPath);
          p = (if endsWith p ''/'' then take (length p - 1) p else p)
      in if p = [] then ''index'' else dropWhile (\<lambda>c. c = CHR ''/'') p)"

lemma splitFirst_takeWhile: "splitFirst c s = takeWhile (\<lambda>x. x \<noteq> c) s"
  by (induction s) (auto simp: splitFirst_def split: list.splits)

lemma endsWith_snoc: "endsWith (p @ [c]) [d] = (c = d)"
  by (simp add: endsWith_def)

lemma takeWhile_upto_sep:
  "takeWhile (\<lambda>x. x \<noteq> a) (p @ a # q) = takeWhile (\<lambda>x. x \<noteq> a) p"
  by (induction p) auto

lemma takeWhile_upto_sep2:
  "takeWhile (\<lambda>x. x \<noteq> a) (takeWhile (\<lambda>x. x \<noteq> b) (p @ a # q)) =
   takeWhile (\<lambda>x. x \<noteq> a) (takeWhile (\<lambda>x. x \<noteq> b) p)"
  by (induction p) auto

lemma pathPart_id:
  "CHR ''?'' \<notin> set p \<Longrightarrow> CHR ''#'' \<notin> set p \<Longrightarrow>
   splitFirst CHR ''#'' (splitFirst CHR ''?'' p) = p"
  by (induction p) (auto simp: splitFirst_takeWhile)

lemma safeFileName_query: "safeFileName (p @ CHR ''?'' # q) = safeFileName p"
  by (simp add: safeFileName_def splitFirst_takeWhile takeWhile_upto_sep)

lemma safeFileName_fragment: "safeFileName (p @ CHR ''#'' # q) = safeFileName p"
  by (simp add: safeFileName_def splitFirst_takeWhile takeWhile_upto_sep2)

lemma safeFileName_trailing:
  assumes "CHR ''?'' \<notin> set p" "CHR ''#'' \<notin> set p" "\<not> endsWith p ''/''"
  shows "safeFileName (p @ ''/'') = safeFileName p"
proof -
  have 1: "splitFirst CHR ''#'' (splitFirst CHR ''?'' (p @ ''/'')) = p @ ''/''"
    using assms by (intro pathPart_id) auto
  have 2: "splitFirst CHR ''#'' (splitFirst CHR ''?'' p) = p"
    using assms by (intro pathPart_id) auto
  show ?thesis using assms(3)
    by (simp add: safeFileName_def 1 2 endsWith_snoc[of p "CHR ''/''" "CHR ''/''"])
qed

lemma dropWhile_not_hd: "dropWhile P xs = y # ys \<Longrightarrow> \<not> P y"
  by (metis hd_dropWhile list.sel(1) list.simps(3))

lemma dropWhile_slash_not_startsWith:
  "\<not> startsWith (dropWhile (\<lambda>c. c = CHR ''/'') t) ''/''"
proof (cases "dropWhile (\<lambda>c. c = CHR ''/'') t")
  case Nil
  show ?thesis unfolding Nil by (simp add: startsWith_def)
next
  case (Cons y ys)
  then have "y \<noteq> CHR ''/''" by (rule dropWhile_not_hd)
  with Cons show ?thesis by (simp add: startsWith_def)
qed

lemma safeFileName_no_leading_slash: "\<not> startsWith (safeFileName p) ''/''"
proof -
  have "\<not> startsWith ''index'' ''/''" by (simp add: startsWith_def)
  then show ?thesis
    by (simp add: safeFileName_def Let_def dropWhile_slash_not_startsWith)
qed

lemma safeFileName_leading:
  assumes "c \<notin> {CHR ''/'', CHR ''?'', CHR ''#''}"
  shows "safeFileName (replicate n CHR ''/'' @ c # r) = safeFileName (c # r)"
proof -
  let ?s = "replicate n CHR ''/''"
  have tw: "\<And>a. a \<noteq> CHR ''/'' \<Longrightarrow>
      takeWhile (\<lambda>x. x \<noteq> a) (?s @ t) = ?s @ takeWhile (\<lambda>x. x \<noteq> a) t" for t
    by (induction n) auto
  define u where "u = splitFirst CHR ''#'' (splitFirst CHR ''?'' (c # r))"
  have u: "splitFirst CHR ''#'' (splitFirst CHR ''?'' (?s @ c # r)) = ?s @ u"
    by (simp only: splitFirst_takeWhile tw u_def) (simp add: tw)
  obtain u' where u': "u = c # u'"
    using assms by (auto simp: u_def splitFirst_takeWhile)
  define strip where
    "strip = (\<lambda>v::string. if endsWith v ''/'' then take (length v - 1) v else v)"
  have e: "endsWith (?s @ u) ''/'' = endsWith u ''/''"
    by (auto simp: endsWith_def u')
  have st: "strip (?s @ u) = ?s @ strip u"
    unfolding strip_def e by (simp add: u')
  have "\<exists>w. strip u = c # w"
  proof (cases "endsWith u ''/''")
    case True
    then have "u' \<noteq> []" using assms by (auto simp: u' endsWith_def)
    then obtain a l where "u' = a # l" by (cases u') auto
    then show ?thesis using True by (simp add: strip_def u')
  next
    case False
    then show ?thesis by (simp add: strip_def u')
  qed
  then obtain w where w: "strip u = c # w" ..
  have d: "dropWhile (\<lambda>c. c = CHR ''/'') (?s @ t) = dropWhile (\<lambda>c. c = CHR ''/'') t" for t
    by (induction n) auto
  have sf: "safeFileName x =
      (if strip (splitFirst CHR ''#'' (splitFirst CHR ''?'' x)) = [] then ''index''
       else dropWhile (\<lambda>c. c = CHR ''/'') (strip (splitFirst CHR ''#'' (splitFirst CHR ''?'' x))))" for x
    by (simp add: safeFileName_def strip_def Let_def)
  have "safeFileName (?s @ c # r) = dropWhile (\<lambda>c. c = CHR ''/'') (strip u)"
    unfolding sf u st by (simp add: d w)
  also have "\<dots> = safeFileName (c # r)"
    unfolding sf u_def[symmetric] by (simp add: w assms)
  finally show ?thesis .
qed

lemma pathPart_prefix:
  assumes "CHR ''?'' \<notin> set p" "CHR ''#'' \<notin> set p"
    and "t = [] \<or> hd t = CHR ''?'' \<or> hd t = CHR ''#''"
  shows "splitFirst CHR ''#'' (splitFirst CHR ''?'' (p @ t)) = p"
proof -
  have t: "takeWhile (\<lambda>x. x \<noteq> CHR ''#'') (takeWhile (\<lambda>x. x \<noteq> CHR ''?'') t) = []"
    using assms(3) by (cases t) auto
  have "takeWhile (\<lambda>x. x \<noteq> CHR ''#'') (takeWhile (\<lambda>x. x \<noteq> CHR ''?'') (p @ t)) = p"
    using assms(1,2) by (induction p) (auto simp: t)
  then show ?thesis by (simp only: splitFirst_takeWhile)
qed

lemma endsWith_append_nonempty: "b \<noteq> [] \<Longrightarrow> endsWith (a @ b) [d] = endsWith b [d]"
  by (cases b rule: rev_cases) (simp_all add: endsWith_def)

lemma endsWith_slashes: "endsWith (replicate (Suc k) CHR ''/'') ''/''"
  by (simp add: endsWith_def flip: replicate_append_same)

lemma dropWhile_slashes:
  "dropWhile (\<lambda>c. c = CHR ''/'') (replicate k CHR ''/'' @ s) = dropWhile (\<lambda>c. c = CHR ''/'') s"
  by (induction k) simp_all

lemma dropWhile_slash_id:
  "\<not> startsWith s ''/'' \<Longrightarrow> dropWhile (\<lambda>c. c = CHR ''/'') s = s"
  by (cases s) (simp_all add: startsWith_def)

lemma safeFileName_value:
  assumes q: "CHR ''?'' \<notin> set body" "CHR ''#'' \<notin> set body"
    and ns: "\<not> startsWith body ''/''"
    and t: "t = [] \<or> hd t = CHR ''?'' \<or> hd t = CHR ''#''"
  shows "safeFileName (replicate k CHR ''/'' @ body @ t) =
           (if body = [] then (if k \<le> 1 then ''index'' else [])
            else if endsWith body ''/'' then butlast body else body)"
proof -
  let ?s = "replicate k CHR ''/''"
  have "CHR ''?'' \<notin> set (?s @ body)" "CHR ''#'' \<notin> set (?s @ body)"
    using q by auto
  then have "splitFirst CHR ''#'' (splitFirst CHR ''?'' ((?s @ body) @ t)) = ?s @ body"
    using t by (rule pathPart_prefix)
  then have P: "splitFirst CHR ''#'' (splitFirst CHR ''?'' (?s @ body @ t)) = ?s @ body"
    by simp
  have sf: "safeFileName (?s @ body @ t) =
      (let p = (if endsWith (?s @ body) ''/'' then take (length (?s @ body) - 1) (?s @ body)
                else ?s @ body)
       in if p = [] then ''index'' else dropWhile (\<lambda>c. c = CHR ''/'') p)"
    unfolding safeFileName_def P by (simp add: Let_def)
  show ?thesis
  proof (cases "body = []")
    case True
    show ?thesis
    proof (cases k)
      case 0
      then show ?thesis unfolding sf using True by (simp add: endsWith_def)
    next
      case (Suc j)
      have e: "endsWith (replicate (Suc j) CHR ''/'') ''/''" by (rule endsWith_slashes)
      have "take j (replicate (Suc j) CHR ''/'') = replicate (min j (Suc j)) CHR ''/''"
        by (rule take_replicate)
      then have tk: "take (length (replicate (Suc j) CHR ''/'') - 1) (replicate (Suc j) CHR ''/'') =
          replicate j CHR ''/''"
        by (simp only: length_replicate diff_Suc_1 min.absorb1[OF le_SucI[OF order_refl]])
      have d: "dropWhile (\<lambda>c. c = CHR ''/'') (replicate j CHR ''/'') = []"
        using dropWhile_slashes[of j "[]"] by simp
      have "safeFileName (?s @ body @ t) =
          (if replicate j CHR ''/'' = [] then ''index''
           else dropWhile (\<lambda>c. c = CHR ''/'') (replicate j CHR ''/''))"
        using sf e tk by (simp add: True Suc Let_def del: replicate.simps replicate_Suc)
      then show ?thesis unfolding d using True Suc by (cases j) simp_all
    qed
  next
    case False
    have e: "endsWith (?s @ body) ''/'' = endsWith body ''/''"
      using False by (rule endsWith_append_nonempty)
    show ?thesis
    proof (cases "endsWith body ''/''")
      case True
      from False obtain bs l where b: "body = bs @ [l]" by (cases body rule: rev_cases) auto
      from True have l: "l = CHR ''/''" unfolding b by (simp add: endsWith_def)
      from ns have "bs \<noteq> []" unfolding b l by (cases bs) (simp_all add: startsWith_def)
      moreover from ns this have nb: "\<not> startsWith bs ''/''"
        unfolding b by (cases bs) (simp_all add: startsWith_def)
      ultimately show ?thesis
        unfolding sf e using True False
        by (simp add: b Let_def dropWhile_slashes dropWhile_slash_id)
    next
      case nt: False
      then show ?thesis
        unfolding sf e using False ns
        by (simp add: Let_def dropWhile_slashes dropWhile_slash_id)
    qed
  qed
qed

lemma safeFileName_example:
  "safeFileName ''/a/b/'' = ''a/b''" "safeFileName ''/a/b'' = ''a/b''"
  "safeFileName ''/'' = ''index''" "safeFileName [] = ''index''"
  by (simp_all add: safeFileName_def splitFirst_takeWhile endsWith_def)

text \<open>
  C8. \<^verbatim>\<open>safeFileName\<close> follows the PathMapper rules. It is a function of its
  argument alone. A query and a fragment are dropped: whatever follows the first \<open>?\<close> or
  the first \<open>#\<close> does not change the result. The path \<open>/\<close> and the empty path map to
  \<open>index\<close>. One trailing slash is stripped: a path that does not end in a slash and the
  same path followed by one slash map to the same name. All leading slashes are stripped:
  the result never starts with a slash, and slashes put in front of a path change nothing.
  \<open>/a/b/\<close> and \<open>/a/b\<close> both map to \<open>a/b\<close>.

  The last part gives the name of every input. An input is, in one way only, \<open>k\<close>
  slashes, a \<open>body\<close> without \<open>?\<close> and \<open>#\<close> that does not start with a slash, and a
  rest \<open>t\<close> that is empty or starts at the first \<open>?\<close> or \<open>#\<close>. Its name is the body
  without its last slash, if it ends in one: exactly one trailing slash goes, the others
  stay. If the body is empty, the name is \<open>index\<close> for at most one slash and the empty
  string for two or more.
\<close>

theorem safeFileName_rules:
  "safeFileName (p @ CHR ''?'' # q) = safeFileName p \<and>
   safeFileName (p @ CHR ''#'' # q) = safeFileName p \<and>
   safeFileName ''/'' = ''index'' \<and>
   safeFileName [] = ''index'' \<and>
   (CHR ''?'' \<notin> set p \<and> CHR ''#'' \<notin> set p \<and> \<not> endsWith p ''/'' \<longrightarrow>
      safeFileName (p @ ''/'') = safeFileName p) \<and>
   \<not> startsWith (safeFileName p) ''/'' \<and>
   (c \<notin> {CHR ''/'', CHR ''?'', CHR ''#''} \<longrightarrow>
      safeFileName (replicate n CHR ''/'' @ c # r) = safeFileName (c # r)) \<and>
   safeFileName ''/a/b/'' = ''a/b'' \<and> safeFileName ''/a/b'' = ''a/b'' \<and>
   (CHR ''?'' \<notin> set body \<and> CHR ''#'' \<notin> set body \<and> \<not> startsWith body ''/'' \<and>
    (t = [] \<or> hd t = CHR ''?'' \<or> hd t = CHR ''#'') \<longrightarrow>
      safeFileName (replicate k CHR ''/'' @ body @ t) =
        (if body = [] then (if k \<le> 1 then ''index'' else [])
         else if endsWith body ''/'' then butlast body else body))"
  using safeFileName_query safeFileName_fragment safeFileName_trailing
    safeFileName_no_leading_slash safeFileName_leading safeFileName_example
    safeFileName_value
  by simp

theorem safeFileName_rules_witness:
  "CHR ''?'' \<notin> set ''/a/b'' \<and> CHR ''#'' \<notin> set ''/a/b'' \<and> \<not> endsWith ''/a/b'' ''/'' \<and>
   safeFileName ''/a/b/'' = safeFileName ''/a/b'' \<and>
   safeFileName ''/a/b?x=1'' = safeFileName ''/a/b'' \<and>
   safeFileName ''/a/b#top'' = safeFileName ''/a/b'' \<and>
   CHR ''a'' \<notin> {CHR ''/'', CHR ''?'', CHR ''#''} \<and>
   safeFileName ''///a/b'' = safeFileName ''a/b'' \<and>
   CHR ''?'' \<notin> set ''blog/post/'' \<and> CHR ''#'' \<notin> set ''blog/post/'' \<and>
   \<not> startsWith ''blog/post/'' ''/'' \<and> hd ''?page=2#top'' = CHR ''?'' \<and>
   safeFileName ''//blog/post/?page=2#top'' = ''blog/post'' \<and>
   safeFileName ''/a//'' = ''a/'' \<and>
   safeFileName ''//'' = []"
  using safeFileName_rules [where p = "''/a/b''" and q = "''x=1''" and c = "CHR ''a''"
      and n = 3 and r = "''/b''" and body = "''blog/post/''" and k = 2 and t = "''?page=2#top''"]
    safeFileName_rules [where p = "''/a/b''" and q = "''top''" and body = "''a//''" and k = 1
      and t = "[]"]
    safeFileName_rules [where body = "[]" and k = 2 and t = "[]"]
  by (simp add: endsWith_def startsWith_def numeral_3_eq_3 numeral_2_eq_2)

section \<open>Regular expressions of the source\<close>

text \<open>
  The flag \<^verbatim>\<open>i\<close> of a JavaScript regular expression (without the flag \<^verbatim>\<open>u\<close>) lets a
  letter of the pattern match both of its cases; a code unit above 127 never matches an
  ASCII letter. \<open>asciiLower\<close> maps \<open>A\<close>..\<open>Z\<close> to \<open>a\<close>..\<open>z\<close> and nothing else,
  and \<open>ciPrefix lit s\<close> says that \<open>s\<close> starts with the (lower case) literal \<open>lit\<close>
  up to the case of letters.
\<close>

definition asciiLower :: "char \<Rightarrow> char" where
  "asciiLower c =
     (case map_of (zip ''ABCDEFGHIJKLMNOPQRSTUVWXYZ'' ''abcdefghijklmnopqrstuvwxyz'') c of
        None \<Rightarrow> c | Some l \<Rightarrow> l)"

definition ciPrefix :: "string \<Rightarrow> string \<Rightarrow> bool" where
  "ciPrefix lit s = (map asciiLower (take (length lit) s) = lit)"

text \<open>
  \<open>findCi lit s\<close>: the text of \<open>s\<close> before the first occurrence of \<open>lit\<close> (up to
  case), which is what a lazy \<^verbatim>\<open>[\s\S]*?\<close> followed by the literal captures.
\<close>

fun findCi :: "string \<Rightarrow> string \<Rightarrow> string option" where
  "findCi lit [] = (if lit = [] then Some [] else None)"
| "findCi lit (c # cs) =
     (if ciPrefix lit (c # cs) then Some []
      else (case findCi lit cs of None \<Rightarrow> None | Some g \<Rightarrow> Some (c # g)))"

text \<open>
  \<^verbatim>\<open>String.prototype.trim\<close> removes white space and line terminators at both ends. Among the
  code units below 256 these are tab, line feed, vertical tab, form feed, carriage return,
  space and no-break space.
\<close>

definition isJsSpace :: "char \<Rightarrow> bool" where
  "isJsSpace c = (of_char c \<in> {9, 10, 11, 12, 13, 32, 160 :: nat})"

definition trim :: "string \<Rightarrow> string" where
  "trim s = rev (dropWhile isJsSpace (rev (dropWhile isJsSpace s)))"

section \<open>IncompletePageDetector: \<^verbatim>\<open>findBlankPages\<close>\<close>

text \<open>
  For every \<^verbatim>\<open>index.html\<close> under the mirror root, \<^verbatim>\<open>findBlankPages\<close> of
  \<^verbatim>\<open>rescrape-blank.mjs\<close> reads the file and decides:
  \<^verbatim>\<open>
  const lineCount = content.split('\n').length;
  const bodyMatch = content.match(/<body[^>]*>([\s\S]*?)<\/body>/i);
  const hasBodyContent = bodyMatch && bodyMatch[1] && bodyMatch[1].trim().length > 200;
  const hasCloudflareError = content.includes('The content of the page cannot be displayed') ||
                            content.includes('Just a moment') ||
                            content.includes('Checking your browser');
  if (lineCount < 50 || !hasBodyContent || hasCloudflareError) { blankPages.push(...) }
  \<close>
\<close>

definition lineCount :: "string \<Rightarrow> nat" where
  "lineCount content = length (splitChar CHR 0x0A content)"

text \<open>
  The regular expression at one start position: \<^verbatim>\<open><body\<close> up to case, then
  \<^verbatim>\<open>[^>]*\<close> (which cannot step over a \<^verbatim>\<open>>\<close>, so it ends at the next one), then
  \<^verbatim>\<open>>\<close>, then the shortest text followed by \<^verbatim>\<open></body>\<close>. The result is
  the capture group.
\<close>

definition bodyMatchAt :: "string \<Rightarrow> string option" where
  "bodyMatchAt s =
     (if ciPrefix ''<body'' s then
        (case dropWhile (\<lambda>c. c \<noteq> CHR ''>'') (drop 5 s) of
           [] \<Rightarrow> None
         | gt # rest \<Rightarrow> findCi ''</body>'' rest)
      else None)"

text \<open>\<^verbatim>\<open>content.match(re)\<close> without the flag \<^verbatim>\<open>g\<close>: the match at the leftmost start.\<close>

fun bodyMatch :: "string \<Rightarrow> string option" where
  "bodyMatch [] = bodyMatchAt []"
| "bodyMatch (c # cs) =
     (case bodyMatchAt (c # cs) of Some g \<Rightarrow> Some g | None \<Rightarrow> bodyMatch cs)"

definition hasBodyContent :: "string \<Rightarrow> bool" where
  "hasBodyContent content =
     (case bodyMatch content of
        None \<Rightarrow> False
      | Some g \<Rightarrow> g \<noteq> [] \<and> 200 < length (trim g))"

definition hasCloudflareError :: "string \<Rightarrow> bool" where
  "hasCloudflareError content =
     (includes_str content ''The content of the page cannot be displayed'' \<or>
      includes_str content ''Just a moment'' \<or>
      includes_str content ''Checking your browser'')"

definition isBlankPage :: "string \<Rightarrow> bool" where
  "isBlankPage content =
     (lineCount content < 50 \<or> \<not> hasBodyContent content \<or> hasCloudflareError content)"

lemma length_splitChar: "length (splitChar c s) = Suc (length (filter (\<lambda>x. x = c) s))"
  by (induction s) (auto split: list.splits)

lemma lineCount_newlines:
  "lineCount content = Suc (length (filter (\<lambda>x. x = CHR 0x0A) content))"
  by (simp add: lineCount_def length_splitChar)

lemma ciPrefix_Nil [simp]: "ciPrefix (l # ls) [] = False"
  by (simp add: ciPrefix_def)

lemma ciPrefix_Cons:
  "ciPrefix (l # ls) (c # cs) = (asciiLower c = l \<and> ciPrefix ls cs)"
  by (auto simp: ciPrefix_def)

lemma ciPrefix_append_variant:
  "map asciiLower v = lit \<Longrightarrow> ciPrefix lit (v @ t)"
  by (auto simp: ciPrefix_def)

lemma ciPrefix_no_straddle:
  assumes "\<not> ciPrefix (l # ls) xs" "xs \<noteq> []" "l \<notin> set ls" "ciPrefix (l # ls) t"
  shows "\<not> ciPrefix (l # ls) (xs @ t)"
proof
  assume a: "ciPrefix (l # ls) (xs @ t)"
  let ?n = "length (l # ls)"
  let ?k = "length xs"
  from assms(4) obtain t0 ts where t: "t = t0 # ts" and t0: "asciiLower t0 = l"
    by (cases t) (auto simp: ciPrefix_Cons)
  show False
  proof (cases "?n \<le> ?k")
    case True
    then have "take ?n (xs @ t) = take ?n xs" by simp
    then have "ciPrefix (l # ls) xs = ciPrefix (l # ls) (xs @ t)"
      unfolding ciPrefix_def by (rule arg_cong[where f = "\<lambda>u. map asciiLower u = l # ls", symmetric])
    with a assms(1) show False by blast
  next
    case False
    then have k: "?k < ?n" by simp
    have "map asciiLower xs @ map asciiLower (take (?n - ?k) t) = l # ls"
      using a k by (simp add: ciPrefix_def)
    then have "(l # ls) ! ?k = (map asciiLower xs @ map asciiLower (take (?n - ?k) t)) ! ?k"
      by simp
    also have "\<dots> = map asciiLower (take (?n - ?k) t) ! 0"
      by (simp add: nth_append)
    also have "\<dots> = l"
      using k t t0 by (cases "?n - ?k") auto
    finally have "(l # ls) ! ?k = l" .
    moreover from assms(2) obtain j where j: "?k = Suc j" by (cases xs) auto
    ultimately have "ls ! j = l" by simp
    moreover have "j < length ls" using k j by simp
    ultimately show False using assms(3) by (metis nth_mem)
  qed
qed

lemma findCi_None_Cons:
  "findCi (l # ls) (c # cs) = None \<longleftrightarrow> \<not> ciPrefix (l # ls) (c # cs) \<and> findCi (l # ls) cs = None"
  by (auto split: option.splits)

lemma findCi_first_occurrence:
  assumes "findCi (l # ls) body = None" "l \<notin> set ls" "map asciiLower v = l # ls"
  shows "findCi (l # ls) (body @ v @ post) = Some body"
  using assms(1)
proof (induction body)
  case Nil
  have "ciPrefix (l # ls) (v @ post)" using assms(3) by (rule ciPrefix_append_variant)
  then show ?case by (cases "v @ post") auto
next
  case (Cons b bs)
  from Cons.prems have nb: "\<not> ciPrefix (l # ls) (b # bs)" and r: "findCi (l # ls) bs = None"
    unfolding findCi_None_Cons by blast+
  have "ciPrefix (l # ls) (v @ post)" using assms(3) by (rule ciPrefix_append_variant)
  with nb assms(2) have "\<not> ciPrefix (l # ls) ((b # bs) @ v @ post)"
    by (intro ciPrefix_no_straddle) auto
  with Cons.IH[OF r] show ?case by simp
qed

lemma bodyMatchAt_open:
  assumes "map asciiLower opn = ''<body''" "CHR ''>'' \<notin> set attrs"
  shows "bodyMatchAt (opn @ attrs @ CHR ''>'' # rest) = findCi ''</body>'' rest"
proof -
  have "length (map asciiLower opn) = length ''<body''" by (simp only: assms(1))
  then have l: "length opn = 5" by simp
  have c: "ciPrefix ''<body'' (opn @ attrs @ CHR ''>'' # rest)"
    using assms(1) by (rule ciPrefix_append_variant)
  have d: "dropWhile (\<lambda>c. c \<noteq> CHR ''>'') (attrs @ CHR ''>'' # rest) = CHR ''>'' # rest"
    using assms(2) by (induction attrs) auto
  show ?thesis by (simp add: bodyMatchAt_def c l d)
qed

lemma bodyMatch_skip:
  assumes "findCi ''<body'' pre = None" "ciPrefix ''<body'' t"
  shows "bodyMatch (pre @ t) = bodyMatch t"
  using assms(1)
proof (induction pre)
  case Nil
  then show ?case by simp
next
  case (Cons p ps)
  from Cons.prems have np: "\<not> ciPrefix ''<body'' (p # ps)" and r: "findCi ''<body'' ps = None"
    unfolding findCi_None_Cons by blast+
  from np assms(2) have "\<not> ciPrefix ''<body'' ((p # ps) @ t)"
    by (intro ciPrefix_no_straddle) auto
  then have "bodyMatchAt (p # ps @ t) = None" by (simp add: bodyMatchAt_def)
  with Cons.IH[OF r] show ?case by simp
qed

lemma bodyMatch_head: "bodyMatchAt s = Some g \<Longrightarrow> bodyMatch s = Some g"
  by (cases s) auto

lemma bodyMatch_region:
  assumes "map asciiLower opn = ''<body''" "map asciiLower cls = ''</body>''"
    and "findCi ''<body'' pre = None" "CHR ''>'' \<notin> set attrs" "findCi ''</body>'' body = None"
  shows "bodyMatch (pre @ opn @ attrs @ ''>'' @ body @ cls @ post) = Some body"
proof -
  let ?t = "opn @ attrs @ ''>'' @ body @ cls @ post"
  have "ciPrefix ''<body'' ?t" using assms(1) by (rule ciPrefix_append_variant)
  with assms(3) have "bodyMatch (pre @ ?t) = bodyMatch ?t" by (rule bodyMatch_skip)
  moreover have "bodyMatchAt ?t = findCi ''</body>'' (body @ cls @ post)"
    using bodyMatchAt_open[OF assms(1) assms(4)] by simp
  moreover have "findCi ''</body>'' (body @ cls @ post) = Some body"
    using assms(5) _ assms(2) by (rule findCi_first_occurrence) simp
  ultimately show ?thesis by (simp add: bodyMatch_head)
qed

lemma trim_Nil [simp]: "trim [] = []"
  by (simp add: trim_def)

lemma startsWith_simps:
  "startsWith s [] = True"
  "startsWith [] (p # ps) = False"
  "startsWith (c # cs) (p # ps) = (c = p \<and> startsWith cs ps)"
  by (auto simp: startsWith_def)

lemma includes_str_skip: "c \<noteq> a \<Longrightarrow> includes_str (c # cs) (a # ps) = includes_str cs (a # ps)"
  by (simp add: startsWith_simps)

lemma includes_str_replicate:
  "c \<noteq> a \<Longrightarrow> includes_str (replicate n c @ t) (a # ps) = includes_str t (a # ps)"
  by (induction n) (simp_all add: startsWith_simps)

lemma findCi_replicate_None:
  "asciiLower c \<noteq> l \<Longrightarrow> findCi (l # ls) (replicate n c) = None"
  by (induction n) (simp_all add: ciPrefix_Cons)

lemma trim_replicate: "\<not> isJsSpace c \<Longrightarrow> trim (replicate n c) = replicate n c"
proof -
  assume "\<not> isJsSpace c"
  then have "dropWhile isJsSpace (replicate n c) = replicate n c"
    by (cases n) simp_all
  then show ?thesis by (simp add: trim_def)
qed

lemma asciiLower_simps:
  "asciiLower CHR ''x'' = CHR ''x''" "asciiLower CHR 0x0A = CHR 0x0A"
  "map asciiLower ''<body'' = ''<body''" "map asciiLower ''</body>'' = ''</body>''"
  by (simp_all add: asciiLower_def)

lemma hasBodyContent_region:
  assumes "map asciiLower opn = ''<body''" "map asciiLower cls = ''</body>''"
    and "findCi ''<body'' pre = None" "CHR ''>'' \<notin> set attrs" "findCi ''</body>'' body = None"
  shows "hasBodyContent (pre @ opn @ attrs @ ''>'' @ body @ cls @ post) = (200 < length (trim body))"
  unfolding hasBodyContent_def bodyMatch_region[OF assms] by auto

text \<open>
  C9, as stated, fails: a document of one line whose body region holds 201 characters has
  more than 200 characters of body content and is still flagged, because it has fewer than
  50 lines.
\<close>

theorem isBlankPage_counterexample:
  "bodyMatch (''<body>'' @ replicate 201 CHR ''x'' @ ''</body>'') = Some (replicate 201 CHR ''x'') \<and>
   200 < length (trim (replicate 201 CHR ''x'')) \<and>
   hasBodyContent (''<body>'' @ replicate 201 CHR ''x'' @ ''</body>'') \<and>
   lineCount (''<body>'' @ replicate 201 CHR ''x'' @ ''</body>'') = 1 \<and>
   isBlankPage (''<body>'' @ replicate 201 CHR ''x'' @ ''</body>'')"
proof -
  let ?body = "replicate 201 CHR ''x''"
  let ?d = "''<body>'' @ ?body @ ''</body>''"
  have n: "findCi ''</body>'' ?body = None"
    by (rule findCi_replicate_None) (simp add: asciiLower_simps)
  have m: "bodyMatch ([] @ ''<body'' @ [] @ ''>'' @ ?body @ ''</body>'' @ []) = Some ?body"
    by (rule bodyMatch_region) (simp_all add: asciiLower_def n)
  have t: "trim ?body = ?body"
    by (rule trim_replicate) (simp add: isJsSpace_def)
  have l: "lineCount ?d = 1"
    by (simp add: lineCount_newlines)
  from m have m': "bodyMatch ?d = Some ?body" by simp
  have tt: "200 < length (trim ?body)"
    by (simp only: t) simp
  have hb: "hasBodyContent ?d"
    unfolding hasBodyContent_def m' using tt by simp
  have ib: "isBlankPage ?d"
    unfolding isBlankPage_def l by simp
  show ?thesis
    by (rule conjI[OF m' conjI[OF tt conjI[OF hb conjI[OF l ib]]]])
qed

text \<open>
  C9, amended. The detector flags a stored page document if and only if at least one of
  three conditions holds: the document has fewer than 50 lines (fewer than 49 line feeds);
  it has no body region, or the text of its body region, trimmed, has at most 200
  characters; or one of the three access-denied markers occurs in it. The body region
  is the text between the first \<^verbatim>\<open><body ...>\<close> tag and the next \<^verbatim>\<open></body>\<close>. So
  a document under 50 lines is flagged whatever its body holds, and a document is no
  longer flagged only when it has at least 50 lines, more than 200 characters of body
  content and no marker.
\<close>

theorem isBlankPage_amended:
  assumes "map asciiLower opn = ''<body''" "map asciiLower cls = ''</body>''"
    and "findCi ''<body'' pre = None" "CHR ''>'' \<notin> set attrs" "findCi ''</body>'' body = None"
    and "d = pre @ opn @ attrs @ ''>'' @ body @ cls @ post"
  shows "(isBlankPage d \<longleftrightarrow>
            length (filter (\<lambda>c. c = CHR 0x0A) d) < 49 \<or> length (trim body) \<le> 200 \<or>
            hasCloudflareError d) \<and>
         (bodyMatch e = None \<longrightarrow> isBlankPage e) \<and>
         (lineCount e < 50 \<longrightarrow> isBlankPage e)"
proof -
  have "hasBodyContent d = (200 < length (trim body))"
    unfolding assms(6) using assms(1-5) by (rule hasBodyContent_region)
  then show ?thesis
    by (auto simp: isBlankPage_def lineCount_newlines hasBodyContent_def)
qed

theorem isBlankPage_amended_witness:
  "\<not> isBlankPage (replicate 49 CHR 0x0A @ ''<body>'' @ replicate 201 CHR ''x'' @ ''</body>'') \<and>
   isBlankPage (replicate 48 CHR 0x0A @ ''<body>'' @ replicate 201 CHR ''x'' @ ''</body>'') \<and>
   isBlankPage (replicate 49 CHR 0x0A @ ''<body>'' @ replicate 200 CHR ''x'' @ ''</body>'')"
proof -
  have a: "findCi ''<body'' (replicate n CHR 0x0A) = None" for n
    by (rule findCi_replicate_None) (simp add: asciiLower_simps)
  have b: "findCi ''</body>'' (replicate n CHR ''x'') = None" for n
    by (rule findCi_replicate_None) (simp add: asciiLower_simps)
  have t: "trim (replicate n CHR ''x'') = replicate n CHR ''x''" for n
    by (rule trim_replicate) (simp add: isJsSpace_def)
  have c: "\<not> hasCloudflareError (replicate k CHR 0x0A @ ''<body>'' @ replicate n CHR ''x'' @ ''</body>'')" for k n
    by (simp add: hasCloudflareError_def includes_str_replicate includes_str_skip startsWith_simps)
  have 1: "\<not> isBlankPage (replicate 49 CHR 0x0A @ ''<body>'' @ replicate 201 CHR ''x'' @ ''</body>'')"
    using isBlankPage_amended [where pre = "replicate 49 CHR 0x0A" and opn = "''<body''"
        and attrs = "[]" and body = "replicate 201 CHR ''x''" and cls = "''</body>''"
        and post = "[]", OF _ _ a _ b refl] c
    by (simp add: asciiLower_def t)
  have 2: "isBlankPage (replicate 48 CHR 0x0A @ ''<body>'' @ replicate 201 CHR ''x'' @ ''</body>'')"
    using isBlankPage_amended [where pre = "replicate 48 CHR 0x0A" and opn = "''<body''"
        and attrs = "[]" and body = "replicate 201 CHR ''x''" and cls = "''</body>''"
        and post = "[]", OF _ _ a _ b refl]
    by (simp add: asciiLower_def t)
  have 3: "isBlankPage (replicate 49 CHR 0x0A @ ''<body>'' @ replicate 200 CHR ''x'' @ ''</body>'')"
    using isBlankPage_amended [where pre = "replicate 49 CHR 0x0A" and opn = "''<body''"
        and attrs = "[]" and body = "replicate 200 CHR ''x''" and cls = "''</body>''"
        and post = "[]", OF _ _ a _ b refl]
    by (simp add: asciiLower_def t)
  from 1 2 3 show ?thesis by blast
qed

section \<open>Platform libraries\<close>

subsection \<open>The URL parser\<close>

text \<open>
  \<^verbatim>\<open>new URL(input, base)\<close> is the platform's URL parser. It is not part of the
  repository, so it is a parameter of the model: \<open>newURL\<close> returns the parsed URL, or
  \<open>None\<close> where the constructor throws. Of a parsed URL the scripts read \<^verbatim>\<open>href\<close>,
  \<^verbatim>\<open>origin\<close>, \<^verbatim>\<open>hostname\<close> and \<^verbatim>\<open>pathname\<close>; they assign to \<^verbatim>\<open>hostname\<close>
  once, in \<^verbatim>\<open>normalizeOrigin\<close>, which is the parameter \<open>setHostname\<close>.
\<close>

record url =
  url_href :: string
  url_origin :: string
  url_hostname :: string
  url_pathname :: string

datatype fetchResult =
    FetchThrows
  | Response (res_ok: bool) (res_contentType: "string option") (res_body: "string option")

text \<open>
  The environment of a run: the URL parser; the mirror root \<^verbatim>\<open>OUT\<close>, an absolute
  normalised path written as the list of its segments; the network, whose answer to
  \<^verbatim>\<open>fetch(url)\<close> may depend on the number of requests made before; and the paths at which
  \<^verbatim>\<open>fs.writeFileSync\<close> succeeds. In a \<open>Response\<close> the content type is the header (or
  \<open>None\<close>), and the body is \<open>None\<close> where reading it fails.
\<close>

record env =
  newURL :: "string \<Rightarrow> string option \<Rightarrow> url option"
  setHostname :: "url \<Rightarrow> string \<Rightarrow> url"
  OUT :: "string list"
  fetch :: "nat \<Rightarrow> string \<Rightarrow> fetchResult"
  writable :: "string list \<Rightarrow> bool"

definition BASE :: string where
  "BASE = ''https://www.fruitpunch.ai''"

text \<open>
  \<^verbatim>\<open>
  function normalizeOrigin(origin) {
    const url = new URL(origin);
    url.hostname = url.hostname.replace(/^www\./, '');
    return url.origin;
  }
  \<close>
  \<open>None\<close> where \<^verbatim>\<open>new URL\<close> throws.
\<close>

definition normalizeOrigin :: "env \<Rightarrow> string \<Rightarrow> string option" where
  "normalizeOrigin e origin =
     (case newURL e origin None of
        None \<Rightarrow> None
      | Some u \<Rightarrow>
          Some (url_origin (setHostname e u
            (if startsWith (url_hostname u) ''www.'' then drop 4 (url_hostname u)
             else url_hostname u))))"

subsection \<open>Node's \<^verbatim>\<open>path\<close> module (POSIX)\<close>

text \<open>
  An absolute normalised path is the list of its segments. \<open>segments\<close> splits a path
  string at slashes and drops the empty segments; \<open>normalizeFrom\<close> is the loop of
  \<^verbatim>\<open>path.normalize\<close> on an absolute path: \<open>.\<close> is skipped, \<open>..\<close> removes the
  segment before it and is dropped at the root.
\<close>

definition segments :: "string \<Rightarrow> string list" where
  "segments p = filter (\<lambda>s. s \<noteq> []) (splitChar CHR ''/'' p)"

fun normalizeFrom :: "string list \<Rightarrow> string list \<Rightarrow> string list" where
  "normalizeFrom stack [] = stack"
| "normalizeFrom stack (s # ss) =
     (if s = ''.'' then normalizeFrom stack ss
      else if s = ''..'' then normalizeFrom (butlast stack) ss
      else normalizeFrom (stack @ [s]) ss)"

text \<open>\<^verbatim>\<open>path.join(dir, p1, p2, ...)\<close> for an absolute normalised \<open>dir\<close>.\<close>

definition pathJoin :: "string list \<Rightarrow> string list \<Rightarrow> string list" where
  "pathJoin dir parts = normalizeFrom dir (concat (map segments parts))"

fun dropCommon :: "string list \<Rightarrow> string list \<Rightarrow> string list \<times> string list" where
  "dropCommon (a # as) (b # bs) = (if a = b then dropCommon as bs else (a # as, b # bs))"
| "dropCommon as bs = (as, bs)"

fun joinWith :: "string \<Rightarrow> string list \<Rightarrow> string" where
  "joinWith sep [] = []"
| "joinWith sep [x] = x"
| "joinWith sep (x # y # ys) = x @ sep @ joinWith sep (y # ys)"

text \<open>
  \<^verbatim>\<open>path.relative(from, to)\<close> for two absolute normalised paths: one \<open>..\<close> for every
  segment of \<open>from\<close> after the common prefix, then the segments of \<open>to\<close> after it;
  the empty string when the paths are equal.
\<close>

definition pathRelative :: "string list \<Rightarrow> string list \<Rightarrow> string" where
  "pathRelative from to =
     (case dropCommon from to of
        (f, t) \<Rightarrow> joinWith ''/'' (replicate (length f) ''..'' @ t))"

text \<open>\<^verbatim>\<open>.replace(/\\/g, '/')\<close>, applied to every relative path the scripts compute.\<close>

definition slashes :: "string \<Rightarrow> string" where
  "slashes s = map (\<lambda>c. if c = CHR 0x5C then CHR ''/'' else c) s"

text \<open>
  \<^verbatim>\<open>path.extname\<close>, \<^verbatim>\<open>path.basename(p, suffix)\<close> and \<^verbatim>\<open>path.dirname\<close> on path strings.
  \<open>lastComponent\<close> is the last segment, trailing slashes ignored.
\<close>

definition lastComponent :: "string \<Rightarrow> string" where
  "lastComponent p =
     rev (takeWhile (\<lambda>c. c \<noteq> CHR ''/'') (dropWhile (\<lambda>c. c = CHR ''/'') (rev p)))"

definition extname :: "string \<Rightarrow> string" where
  "extname p =
     (let b = lastComponent p;
          e = CHR ''.'' # rev (takeWhile (\<lambda>c. c \<noteq> CHR ''.'') (rev b))
      in if CHR ''.'' \<notin> set b \<or> length e = length b \<or> b = ''..'' then [] else e)"

definition basename :: "string \<Rightarrow> string \<Rightarrow> string" where
  "basename p suf =
     (let b = lastComponent p
      in if suf \<noteq> [] \<and> suf = p then []
         else if suf \<noteq> [] \<and> endsWith b suf \<and> b \<noteq> suf
         then take (length b - length suf) b
         else b)"

definition dirname :: "string \<Rightarrow> string" where
  "dirname p =
     (case p of
        [] \<Rightarrow> ''.''
      | c # cs \<Rightarrow>
          (case dropWhile (\<lambda>x. x \<noteq> CHR ''/'') (dropWhile (\<lambda>x. x = CHR ''/'') (rev cs)) of
             [] \<Rightarrow> (if c = CHR ''/'' then ''/'' else ''.'')
           | sl # r \<Rightarrow> (if c = CHR ''/'' \<and> r = [] then ''//'' else c # rev r)))"

section \<open>AssetStore: \<^verbatim>\<open>downloadAsset\<close>\<close>

definition isAlnum :: "char \<Rightarrow> bool" where
  "isAlnum c =
     (let n = of_char c :: nat
      in (48 \<le> n \<and> n \<le> 57) \<or> (65 \<le> n \<and> n \<le> 90) \<or> (97 \<le> n \<and> n \<le> 122))"

text \<open>
  \<^verbatim>\<open>
  function getAssetPath(url) {
    try {
      const urlObj = new URL(url);
      const pathname = urlObj.pathname;
      const ext = path.extname(pathname) || '.html';
      const basename = path.basename(pathname, ext) || 'index';
      const dir = path.dirname(pathname).replace(/^\//, '').replace(/\//g, '_');
      const filename = dir ? `${dir}_${basename}${ext}` : `${basename}${ext}`;
      return filename.replace(/[^a-zA-Z0-9._-]/g, '_');
    } catch {
      return 'asset_' + url.replace(/[^a-zA-Z0-9]/g, '_').substring(0, 50);
    }
  }
  \<close>
  \<^verbatim>\<open>scrape.mjs\<close> parses its argument without a base; \<^verbatim>\<open>rescrape-blank.mjs\<close> parses it
  against \<^verbatim>\<open>http://example.com\<close>. The argument \<open>base\<close> is the difference.
\<close>

definition getAssetPathWith :: "string option \<Rightarrow> env \<Rightarrow> string \<Rightarrow> string" where
  "getAssetPathWith base e u =
     (case newURL e u base of
        Some urlObj \<Rightarrow>
          (let pathname = url_pathname urlObj;
               ext = (if extname pathname = [] then ''.html'' else extname pathname);
               bn = (if basename pathname ext = [] then ''index'' else basename pathname ext);
               d = dirname pathname;
               d = (if startsWith d ''/'' then drop 1 d else d);
               dir = map (\<lambda>c. if c = CHR ''/'' then CHR ''_'' else c) d;
               filename = (if dir \<noteq> [] then dir @ ''_'' @ bn @ ext else bn @ ext)
           in map (\<lambda>c. if isAlnum c \<or> c \<in> set ''._-'' then c else CHR ''_'') filename)
      | None \<Rightarrow>
          ''asset_'' @ take 50 (map (\<lambda>c. if isAlnum c then c else CHR ''_'') u))"

definition getAssetPath :: "env \<Rightarrow> string \<Rightarrow> string" where
  "getAssetPath = getAssetPathWith None"

definition getAssetPath_rescrape :: "env \<Rightarrow> string \<Rightarrow> string" where
  "getAssetPath_rescrape = getAssetPathWith (Some ''http://example.com'')"

text \<open>
  The allow-list of \<^verbatim>\<open>downloadAsset\<close>:
  \<^verbatim>\<open>
  const isCommonCDN = urlObj.hostname.includes('cdn.prod.website-files.com') ||
                      urlObj.hostname.includes('fonts.googleapis.com') || ...
  \<close>
\<close>

definition commonCDNs :: "string list" where
  "commonCDNs =
     [''cdn.prod.website-files.com'', ''fonts.googleapis.com'', ''fonts.gstatic.com'',
      ''cdn.jsdelivr.net'', ''unpkg.com'', ''ajax.googleapis.com'',
      ''downloads.mailchimp.com'', ''chimpstatic.com'']"

definition isCommonCDN :: "string \<Rightarrow> bool" where
  "isCommonCDN host = list_ex (\<lambda>d. includes_str host d) commonCDNs"

text \<open>The extension: that of the URL path, else one inferred from the content type.\<close>

definition inferExt :: "string \<Rightarrow> string \<Rightarrow> string" where
  "inferExt ext contentType =
     (if ext \<noteq> [] then ext
      else if includes_str contentType ''css'' then ''.css''
      else if includes_str contentType ''javascript'' then ''.js''
      else if includes_str contentType ''image'' then
        (if includes_str contentType ''png'' then ''.png''
         else if includes_str contentType ''jpg'' \<or> includes_str contentType ''jpeg'' then ''.jpg''
         else if includes_str contentType ''svg'' then ''.svg''
         else if includes_str contentType ''gif'' then ''.gif''
         else if includes_str contentType ''webp'' then ''.webp''
         else ext)
      else if includes_str contentType ''font'' \<or> includes_str contentType ''woff'' then
        (if includes_str contentType ''woff2'' then ''.woff2''
         else if includes_str contentType ''woff'' then ''.woff''
         else if includes_str contentType ''ttf'' then ''.ttf''
         else if includes_str contentType ''otf'' then ''.otf''
         else ext)
      else ext)"

text \<open>
  The state of a run: the map \<^verbatim>\<open>downloadedAssets\<close> from absolute URL to local path,
  the files written, and the list of the URLs requested from the network so far, in
  order. The list is not in the source; it records the calls of \<^verbatim>\<open>fetch\<close>.
\<close>

record store =
  downloadedAssets :: "string \<rightharpoonup> string"
  files :: "string list \<rightharpoonup> string"
  fetched :: "string list"

text \<open>
  The eligibility check of \<^verbatim>\<open>downloadAsset\<close>:
  \<^verbatim>\<open>
  const urlObj = new URL(absoluteUrl);
  const baseOrigin = new URL(BASE).origin;
  const isSameOrigin = normalizeOrigin(urlObj.origin) === normalizeOrigin(baseOrigin);
  const isCommonCDN = ...;
  if (!isSameOrigin && !isCommonCDN) { return null; }
  \<close>
  \<open>None\<close> where one of the constructors throws; otherwise whether the download goes on.
\<close>

definition isEligible :: "env \<Rightarrow> url \<Rightarrow> bool option" where
  "isEligible e urlObj =
     (case newURL e BASE None of
        None \<Rightarrow> None
      | Some baseObj \<Rightarrow>
          (case normalizeOrigin e (url_origin urlObj) of
             None \<Rightarrow> None
           | Some o1 \<Rightarrow>
               (case normalizeOrigin e (url_origin baseObj) of
                  None \<Rightarrow> None
                | Some o2 \<Rightarrow> Some (o1 = o2 \<or> isCommonCDN (url_hostname urlObj)))))"

text \<open>
  The end of \<^verbatim>\<open>downloadAsset\<close>, after a response that is ok and whose body was read:
  \<^verbatim>\<open>
  let ext = path.extname(urlObj.pathname);
  if (!ext || ext === '') { ... }
  const filename = getAssetPath(urlObj.pathname) + ext;
  const filepath = path.join(ASSETS_DIR, filename);
  ensureDir(ASSETS_DIR);
  fs.writeFileSync(filepath, buffer);
  const relativePath = path.relative(OUT, filepath).replace(/\\/g, '/');
  downloadedAssets.set(absoluteUrl, relativePath);
  return relativePath;
  \<close>
\<close>

definition storeAsset ::
  "(env \<Rightarrow> string \<Rightarrow> string) \<Rightarrow> env \<Rightarrow> store \<Rightarrow> string \<Rightarrow> url \<Rightarrow> string \<Rightarrow> string \<Rightarrow>
     string option \<times> store" where
  "storeAsset gap e st absoluteUrl urlObj contentType buffer =
     (let ext = inferExt (extname (url_pathname urlObj)) contentType;
          filename = gap e (url_pathname urlObj) @ ext;
          filepath = pathJoin (pathJoin (OUT e) [''_assets'']) [filename]
      in if \<not> writable e filepath then (None, st)
         else
           (let relativePath = slashes (pathRelative (OUT e) filepath)
            in (Some relativePath,
                st\<lparr>files := (files st)(filepath \<mapsto> buffer),
                   downloadedAssets := (downloadedAssets st)(absoluteUrl \<mapsto> relativePath)\<rparr>)))"

text \<open>
  The response, once it has arrived:
  \<^verbatim>\<open>
  if (!res.ok) { return null; }
  const contentType = res.headers.get('content-type') || '';
  const buffer = Buffer.from(await res.arrayBuffer());
  \<close>
  and then the end of the function above. Nothing of the state is read or written between
  the arrival of the response and the end of the call.
\<close>

definition settleAsset ::
  "(env \<Rightarrow> string \<Rightarrow> string) \<Rightarrow> env \<Rightarrow> store \<Rightarrow> string \<Rightarrow> url \<Rightarrow> fetchResult \<Rightarrow>
     string option \<times> store" where
  "settleAsset gap e st absoluteUrl urlObj res =
     (case res of
        FetchThrows \<Rightarrow> (None, st)
      | Response ok ct body \<Rightarrow>
          (if \<not> ok then (None, st)
           else case body of
                  None \<Rightarrow> (None, st)
                | Some buffer \<Rightarrow>
                    storeAsset gap e st absoluteUrl urlObj
                      (case ct of None \<Rightarrow> [] | Some c \<Rightarrow> c) buffer))"

text \<open>
  The request, \<^verbatim>\<open>const res = await fetch(absoluteUrl, ...)\<close>, with its response taken at
  once: the request is recorded, and the network answers by the number of requests made
  before.
\<close>

definition fetchAsset ::
  "(env \<Rightarrow> string \<Rightarrow> string) \<Rightarrow> env \<Rightarrow> store \<Rightarrow> string \<Rightarrow> url \<Rightarrow> string option \<times> store" where
  "fetchAsset gap e st absoluteUrl urlObj =
     settleAsset gap e (st\<lparr>fetched := fetched st @ [absoluteUrl]\<rparr>) absoluteUrl urlObj
       (fetch e (length (fetched st)) absoluteUrl)"

text \<open>
  The beginning of \<^verbatim>\<open>downloadAsset(url, pageUrl)\<close>, up to the request. The whole body
  of the function stands in a \<^verbatim>\<open>try\<close> whose \<^verbatim>\<open>catch\<close> returns \<^verbatim>\<open>null\<close>, so every
  exception is the result \<open>None\<close>. The steps, in the order of the source: data and blob
  URLs are skipped; the URL is resolved against the page; a URL already in
  \<^verbatim>\<open>downloadedAssets\<close> returns its path; the origin is compared with that of \<^verbatim>\<open>BASE\<close>
  and the host with the allow-list. The result is what the call returns (\<open>Inl\<close>), or the
  absolute URL and the parsed URL with which it goes on to the request (\<open>Inr\<close>).
\<close>

definition startAsset :: "env \<Rightarrow> store \<Rightarrow> string \<Rightarrow> string \<Rightarrow> string option + string \<times> url" where
  "startAsset e st u pageUrl =
     (if startsWith u ''data:'' \<or> startsWith u ''blob:'' then Inl None
      else case newURL e u (Some pageUrl) of
             None \<Rightarrow> Inl None
           | Some a \<Rightarrow>
               (case downloadedAssets st (url_href a) of
                  Some p \<Rightarrow> Inl (Some p)
                | None \<Rightarrow>
                    (case newURL e (url_href a) None of
                       None \<Rightarrow> Inl None
                     | Some urlObj \<Rightarrow>
                         (case isEligible e urlObj of
                            None \<Rightarrow> Inl None
                          | Some ok \<Rightarrow>
                              (if \<not> ok then Inl None else Inr (url_href a, urlObj))))))"

text \<open>\<^verbatim>\<open>downloadAsset(url, pageUrl)\<close>, one call run to its end with no other call in between.\<close>

definition downloadAssetWith ::
  "(env \<Rightarrow> string \<Rightarrow> string) \<Rightarrow> env \<Rightarrow> store \<Rightarrow> string \<Rightarrow> string \<Rightarrow> string option \<times> store" where
  "downloadAssetWith gap e st u pageUrl =
     (case startAsset e st u pageUrl of
        Inl r \<Rightarrow> (r, st)
      | Inr (absoluteUrl, urlObj) \<Rightarrow> fetchAsset gap e st absoluteUrl urlObj)"

definition downloadAsset :: "env \<Rightarrow> store \<Rightarrow> string \<Rightarrow> string \<Rightarrow> string option \<times> store" where
  "downloadAsset = downloadAssetWith getAssetPath"

definition downloadAsset_rescrape :: "env \<Rightarrow> store \<Rightarrow> string \<Rightarrow> string \<Rightarrow> string option \<times> store" where
  "downloadAsset_rescrape = downloadAssetWith getAssetPath_rescrape"

subsection \<open>Calls in flight\<close>

text \<open>
  \<^verbatim>\<open>downloadAsset\<close> is an \<^verbatim>\<open>async\<close> function, and a page starts its calls together:
  \<^verbatim>\<open>
  const assetPromises = Array.from(pageAssets).map(url => downloadAsset(url, fullUrl));
  await Promise.all(assetPromises);
  \<close>
  and, in \<^verbatim>\<open>rewriteHtml\<close>,
  \<^verbatim>\<open>
  const downloadPromises = Array.from(assetUrls).map(async (url) => {
    const localPath = await downloadAsset(url, pageUrl);
    if (localPath) {
      assetMap.set(url, localPath);
      if (url.endsWith('.css') || url.includes('.css?') || localPath.endsWith('.css')) {
        ...
            for (const cssAssetUrl of cssAssets) {
              const cssAssetPath = await downloadAsset(cssAssetUrl, url);
              if (cssAssetPath) {
                assetMap.set(cssAssetUrl, cssAssetPath);
              }
            }
        ...
  });
  await Promise.all(downloadPromises);
  \<close>
  A call runs without interruption up to \<^verbatim>\<open>await fetch\<close> and again from the arrival of
  the response to its end; between the two, other calls begin and end. The state of a run
  is the store, the calls in flight (argument, absolute URL, parsed URL, and the response
  that the network will give), and the log of the calls that have returned, each with its
  argument and its result. The log is not in the source; it records what the callers see.
\<close>

record sys =
  sys_store :: store
  sys_inflight :: "(string \<times> string \<times> url \<times> fetchResult) list"
  sys_replies :: "(string \<times> string option) list"

datatype event = Call string string | Settle nat

text \<open>
  \<open>Call u pageUrl\<close>: a call begins; it returns at once or sends its request.
  \<open>Settle i\<close>: the response of the \<open>i\<close>-th call in flight arrives and the call ends.
\<close>

definition stepWith :: "(env \<Rightarrow> string \<Rightarrow> string) \<Rightarrow> env \<Rightarrow> sys \<Rightarrow> event \<Rightarrow> sys" where
  "stepWith gap e s ev =
     (case ev of
        Call u pageUrl \<Rightarrow>
          (case startAsset e (sys_store s) u pageUrl of
             Inl r \<Rightarrow> s\<lparr>sys_replies := sys_replies s @ [(u, r)]\<rparr>
           | Inr (absoluteUrl, urlObj) \<Rightarrow>
               s\<lparr>sys_store := (sys_store s)\<lparr>fetched := fetched (sys_store s) @ [absoluteUrl]\<rparr>,
                 sys_inflight := sys_inflight s @
                   [(u, absoluteUrl, urlObj,
                     fetch e (length (fetched (sys_store s))) absoluteUrl)]\<rparr>)
      | Settle i \<Rightarrow>
          (if i < length (sys_inflight s) then
             (case sys_inflight s ! i of
                (u, absoluteUrl, urlObj, res) \<Rightarrow>
                  (case settleAsset gap e (sys_store s) absoluteUrl urlObj res of
                     (r, st') \<Rightarrow>
                       \<lparr>sys_store = st',
                        sys_inflight = take i (sys_inflight s) @ drop (Suc i) (sys_inflight s),
                        sys_replies = sys_replies s @ [(u, r)]\<rparr>))
           else s))"

definition runWith :: "(env \<Rightarrow> string \<Rightarrow> string) \<Rightarrow> env \<Rightarrow> sys \<Rightarrow> event list \<Rightarrow> sys" where
  "runWith gap e s evs = foldl (stepWith gap e) s evs"

definition run :: "env \<Rightarrow> sys \<Rightarrow> event list \<Rightarrow> sys" where
  "run = runWith getAssetPath"

text \<open>The absolute URLs with a request in flight.\<close>

definition inflightUrls :: "sys \<Rightarrow> string set" where
  "inflightUrls s = (\<lambda>(u, a, uo, res). a) ` set (sys_inflight s)"



subsection \<open>An instance of the environment\<close>

text \<open>
  The examples below need a parser to run on. \<open>exampleURL\<close> reads an input of the form
  \<^verbatim>\<open>https://host/path\<close>, and an input that starts with a slash as a path on the host of
  the base; on inputs of these forms, without query or fragment and with a lower-case host,
  it returns what the platform's parser returns. Everything else is refused.
\<close>

definition exampleAbs :: "string \<Rightarrow> url option" where
  "exampleAbs u =
     (if startsWith u ''https://'' then
        (let host = takeWhile (\<lambda>c. c \<noteq> CHR ''/'') (drop 8 u);
             rest = dropWhile (\<lambda>c. c \<noteq> CHR ''/'') (drop 8 u);
             p = (if rest = [] then ''/'' else rest)
         in if host = [] then None
            else Some \<lparr>url_href = ''https://'' @ host @ p, url_origin = ''https://'' @ host,
                      url_hostname = host, url_pathname = p\<rparr>)
      else None)"

definition exampleURL :: "string \<Rightarrow> string option \<Rightarrow> url option" where
  "exampleURL u base =
     (case exampleAbs u of
        Some a \<Rightarrow> Some a
      | None \<Rightarrow>
          (case base of
             None \<Rightarrow> None
           | Some b \<Rightarrow>
               (case exampleAbs b of
                  None \<Rightarrow> None
                | Some bu \<Rightarrow>
                    if startsWith u ''/'' \<and> \<not> startsWith u ''//''
                    then exampleAbs (url_origin bu @ u) else None)))"

definition exampleSetHostname :: "url \<Rightarrow> string \<Rightarrow> url" where
  "exampleSetHostname u h =
     (if h = [] then u
      else u\<lparr>url_hostname := h, url_origin := ''https://'' @ h,
             url_href := ''https://'' @ h @ url_pathname u\<rparr>)"

definition exampleEnv :: "(nat \<Rightarrow> string \<Rightarrow> fetchResult) \<Rightarrow> env" where
  "exampleEnv net =
     \<lparr>newURL = exampleURL, setHostname = exampleSetHostname, OUT = [''srv'', ''offline''],
      fetch = net, writable = (\<lambda>p. True)\<rparr>"

definition emptyStore :: store where
  "emptyStore = \<lparr>downloadedAssets = Map.empty, files = Map.empty, fetched = []\<rparr>"

definition emptySys :: sys where
  "emptySys = \<lparr>sys_store = emptyStore, sys_inflight = [], sys_replies = []\<rparr>"

text \<open>
  \<open>fileURL\<close> reads, besides the inputs of \<open>exampleURL\<close>, an input of the form
  \<^verbatim>\<open>file://host/path\<close>. As with the platform's parser, such a URL has its host name, and
  its origin is opaque: \<^verbatim>\<open>origin\<close> is the string \<^verbatim>\<open>null\<close>, which no parser reads as a URL.
\<close>

definition fileURL :: "string \<Rightarrow> string option \<Rightarrow> url option" where
  "fileURL u base =
     (if startsWith u ''file://'' then
        (let host = takeWhile (\<lambda>c. c \<noteq> CHR ''/'') (drop 7 u);
             rest = dropWhile (\<lambda>c. c \<noteq> CHR ''/'') (drop 7 u);
             p = (if rest = [] then ''/'' else rest)
         in Some \<lparr>url_href = ''file://'' @ host @ p, url_origin = ''null'',
                  url_hostname = host, url_pathname = p\<rparr>)
      else exampleURL u base)"

definition fileEnv :: env where
  "fileEnv = (exampleEnv (\<lambda>n u. FetchThrows))\<lparr>newURL := fileURL\<rparr>"

text \<open>Networks for the examples: always down, always up, and failing once.\<close>

definition netDown :: "nat \<Rightarrow> string \<Rightarrow> fetchResult" where
  "netDown n u = FetchThrows"

definition netUp :: "nat \<Rightarrow> string \<Rightarrow> fetchResult" where
  "netUp n u = Response True (Some ''text/css'') (Some ''body'')"

definition netFlaky :: "nat \<Rightarrow> string \<Rightarrow> fetchResult" where
  "netFlaky n u =
     (if n = 0 then Response False None None
      else Response True (Some ''text/css'') (Some ''body''))"


subsection \<open>Properties of \<^verbatim>\<open>downloadAsset\<close>\<close>

lemma storeAsset_fetched: "fetched (snd (storeAsset gap e st a uo ct b)) = fetched st"
  by (simp add: storeAsset_def Let_def)

lemma settleAsset_fetched: "fetched (snd (settleAsset gap e st a uo res)) = fetched st"
  by (simp add: settleAsset_def storeAsset_fetched split: fetchResult.splits option.splits)

lemma fetchAsset_fetched:
  "fetched (snd (fetchAsset gap e st a uo)) = fetched st @ [a]"
  by (simp add: fetchAsset_def settleAsset_fetched)

lemma storeAsset_memo:
  "storeAsset gap e st a uo ct b = (r, st') \<Longrightarrow>
     downloadedAssets st' = (case r of None \<Rightarrow> downloadedAssets st
                             | Some lp \<Rightarrow> (downloadedAssets st)(a \<mapsto> lp))"
  by (auto simp: storeAsset_def Let_def split: if_splits)

lemma settleAsset_memo:
  assumes "settleAsset gap e st a uo res = (r, st')"
  shows "downloadedAssets st' = (case r of None \<Rightarrow> downloadedAssets st
                                 | Some lp \<Rightarrow> (downloadedAssets st)(a \<mapsto> lp))"
proof (cases res)
  case FetchThrows
  with assms show ?thesis by (simp add: settleAsset_def)
next
  case (Response ok ct body)
  show ?thesis
  proof (cases "ok \<and> body \<noteq> None")
    case False
    with assms Response have "r = None" "st' = st"
      by (auto simp: settleAsset_def split: if_splits option.splits)
    then show ?thesis by simp
  next
    case True
    then obtain buffer where "body = Some buffer" by auto
    with assms Response True
    have "storeAsset gap e st a uo (case ct of None \<Rightarrow> [] | Some c \<Rightarrow> c) buffer = (r, st')"
      by (simp add: settleAsset_def)
    then show ?thesis by (rule storeAsset_memo)
  qed
qed


lemma fetchAsset_memo:
  assumes "fetchAsset gap e st a uo = (r, st')"
  shows "downloadedAssets st' = (case r of None \<Rightarrow> downloadedAssets st
                                 | Some lp \<Rightarrow> (downloadedAssets st)(a \<mapsto> lp))"
  using settleAsset_memo[OF assms[unfolded fetchAsset_def]] by (cases r) simp_all

text \<open>How a call begins.\<close>

lemma startAsset_cases:
  obtains (skip) "startAsset e st u pageUrl = Inl None"
  | (hit) a lp where "\<not> startsWith u ''data:''" "\<not> startsWith u ''blob:''"
      "newURL e u (Some pageUrl) = Some a"
      "downloadedAssets st (url_href a) = Some lp" "startAsset e st u pageUrl = Inl (Some lp)"
  | (request) a uo where "\<not> startsWith u ''data:''" "\<not> startsWith u ''blob:''"
      "newURL e u (Some pageUrl) = Some a" "downloadedAssets st (url_href a) = None"
      "newURL e (url_href a) None = Some uo" "isEligible e uo = Some True"
      "startAsset e st u pageUrl = Inr (url_href a, uo)"
proof (cases "startsWith u ''data:'' \<or> startsWith u ''blob:''")
  case True
  then have "startAsset e st u pageUrl = Inl None" by (simp add: startAsset_def)
  then show ?thesis by (rule skip)
next
  case nd: False
  then have d: "\<not> startsWith u ''data:''" and b: "\<not> startsWith u ''blob:''" by simp_all
  show ?thesis
  proof (cases "newURL e u (Some pageUrl)")
    case None
    with nd have "startAsset e st u pageUrl = Inl None" by (simp add: startAsset_def)
    then show ?thesis by (rule skip)
  next
    case a: (Some a)
    show ?thesis
    proof (cases "downloadedAssets st (url_href a)")
      case (Some lp)
      with nd a have "startAsset e st u pageUrl = Inl (Some lp)" by (simp add: startAsset_def)
      with d b a Some show ?thesis by (rule hit)
    next
      case m: None
      show ?thesis
      proof (cases "newURL e (url_href a) None")
        case None
        with nd a m have "startAsset e st u pageUrl = Inl None" by (simp add: startAsset_def)
        then show ?thesis by (rule skip)
      next
        case uo: (Some uo)
        show ?thesis
        proof (cases "isEligible e uo")
          case None
          with nd a m uo have "startAsset e st u pageUrl = Inl None" by (simp add: startAsset_def)
          then show ?thesis by (rule skip)
        next
          case (Some ok)
          show ?thesis
          proof (cases ok)
            case False
            with Some nd a m uo have "startAsset e st u pageUrl = Inl None"
              by (simp add: startAsset_def)
            then show ?thesis by (rule skip)
          next
            case True
            with Some nd a m uo have "startAsset e st u pageUrl = Inr (url_href a, uo)"
              by (simp add: startAsset_def)
            with d b a m uo Some[unfolded True[THEN eqTrueI]] show ?thesis by (rule request)
          qed
        qed
      qed
    qed
  qed
qed

lemma startAsset_hit:
  assumes "\<not> startsWith u ''data:''" "\<not> startsWith u ''blob:''"
    and "newURL e u (Some pageUrl) = Some a" "downloadedAssets st (url_href a) = Some lp"
  shows "startAsset e st u pageUrl = Inl (Some lp)"
  using assms by (simp add: startAsset_def)

lemma startAsset_eligible:
  assumes "\<not> startsWith u ''data:''" "\<not> startsWith u ''blob:''"
    and "newURL e u (Some pageUrl) = Some a" "downloadedAssets st (url_href a) = None"
    and "newURL e (url_href a) None = Some uo" "isEligible e uo = Some True"
  shows "startAsset e st u pageUrl = Inr (url_href a, uo)"
  using assms by (simp add: startAsset_def)

lemma startAsset_refused:
  assumes "\<not> startsWith u ''data:''" "\<not> startsWith u ''blob:''"
    and "newURL e u (Some pageUrl) = Some a" "downloadedAssets st (url_href a) = None"
    and "newURL e (url_href a) None = Some uo" "isEligible e uo \<noteq> Some True"
  shows "startAsset e st u pageUrl = Inl None"
proof (cases "isEligible e uo")
  case None
  with assms show ?thesis by (simp add: startAsset_def)
next
  case (Some ok)
  with assms(6) have "\<not> ok" by simp
  with Some assms(1-5) show ?thesis by (simp add: startAsset_def)
qed

lemma startAsset_InrD:
  assumes "startAsset e st u pageUrl = Inr (a, uo)"
  shows "downloadedAssets st a = None"
proof (cases rule: startAsset_cases[of e st u pageUrl])
  case skip
  with assms show ?thesis by simp
next
  case (hit a' lp)
  with assms show ?thesis by simp
next
  case (request a' uo')
  with assms show ?thesis by simp
qed

lemma downloadAssetWith_eligible:
  assumes "\<not> startsWith u ''data:''" "\<not> startsWith u ''blob:''"
    and "newURL e u (Some pageUrl) = Some a" "downloadedAssets st (url_href a) = None"
    and "newURL e (url_href a) None = Some uo" "isEligible e uo = Some True"
  shows "downloadAssetWith gap e st u pageUrl = fetchAsset gap e st (url_href a) uo"
  using startAsset_eligible[OF assms] by (simp add: downloadAssetWith_def)

lemma downloadAssetWith_refused:
  assumes "\<not> startsWith u ''data:''" "\<not> startsWith u ''blob:''"
    and "newURL e u (Some pageUrl) = Some a" "downloadedAssets st (url_href a) = None"
    and "newURL e (url_href a) None = Some uo" "isEligible e uo \<noteq> Some True"
  shows "downloadAssetWith gap e st u pageUrl = (None, st)"
  using startAsset_refused[OF assms] by (simp add: downloadAssetWith_def)

lemma downloadAssetWith_hit:
  assumes "\<not> startsWith u ''data:''" "\<not> startsWith u ''blob:''"
    and "newURL e u (Some pageUrl) = Some a" "downloadedAssets st (url_href a) = Some lp"
  shows "downloadAssetWith gap e st u pageUrl = (Some lp, st)"
  using startAsset_hit[OF assms] by (simp add: downloadAssetWith_def)

lemma isCommonCDN_iff:
  "isCommonCDN host \<longleftrightarrow> (\<exists>d \<in> set commonCDNs. includes_str host d)"
  by (simp add: isCommonCDN_def list_ex_iff)

lemma isEligible_Some:
  assumes "newURL e BASE None = Some b" "normalizeOrigin e (url_origin uo) = Some o1"
    and "normalizeOrigin e (url_origin b) = Some o2"
  shows "isEligible e uo = Some (o1 = o2 \<or> (\<exists>d \<in> set commonCDNs. includes_str (url_hostname uo) d))"
  using assms by (simp add: isEligible_def isCommonCDN_iff)

lemma isEligible_opaque:
  "normalizeOrigin e (url_origin uo) = None \<Longrightarrow> isEligible e uo = None"
  by (simp add: isEligible_def split: option.splits)

text \<open>
  C10, as stated, fails for a URL whose origin is opaque. The host name of
  \<^verbatim>\<open>file://unpkg.com/x.js\<close> is \<^verbatim>\<open>unpkg.com\<close>, a name of the allow-list, and its origin
  is \<^verbatim>\<open>null\<close>. \<^verbatim>\<open>normalizeOrigin\<close> throws on it before the allow-list is looked at,
  the \<^verbatim>\<open>catch\<close> of \<^verbatim>\<open>downloadAsset\<close> returns \<^verbatim>\<open>null\<close>, and nothing is requested, in
  both copies of the function.
\<close>

theorem cdn_substring_counterexample:
  "newURL fileEnv ''file://unpkg.com/x.js'' (Some ''https://www.fruitpunch.ai/'') =
     Some \<lparr>url_href = ''file://unpkg.com/x.js'', url_origin = ''null'',
           url_hostname = ''unpkg.com'', url_pathname = ''/x.js''\<rparr> \<and>
   ''unpkg.com'' \<in> set commonCDNs \<and> includes_str ''unpkg.com'' ''unpkg.com'' \<and>
   normalizeOrigin fileEnv ''null'' = None \<and>
   fst (downloadAsset fileEnv emptyStore ''file://unpkg.com/x.js''
          ''https://www.fruitpunch.ai/'') = None \<and>
   fetched (snd (downloadAsset fileEnv emptyStore ''file://unpkg.com/x.js''
          ''https://www.fruitpunch.ai/'')) = [] \<and>
   fst (downloadAsset_rescrape fileEnv emptyStore ''file://unpkg.com/x.js''
          ''https://www.fruitpunch.ai/'') = None \<and>
   fetched (snd (downloadAsset_rescrape fileEnv emptyStore ''file://unpkg.com/x.js''
          ''https://www.fruitpunch.ai/'')) = []"
  by code_simp

text \<open>
  C10, amended. Take a URL that is not a data or blob URL, resolves, and is not stored yet.
  If its origin cannot be normalised (\<^verbatim>\<open>new URL(origin)\<close> throws, as for every opaque
  origin), the call returns \<^verbatim>\<open>null\<close> without a request, whatever the host name. If the
  origins of the URL and of \<^verbatim>\<open>BASE\<close> can be normalised, the URL is requested exactly when
  the normalised origins are equal or the host name contains one of the allow-listed names
  anywhere, as a substring; otherwise the call returns \<^verbatim>\<open>null\<close> without a request. This
  holds for the copy in \<^verbatim>\<open>scrape.mjs\<close> and for the copy in \<^verbatim>\<open>rescrape-blank.mjs\<close>.
\<close>

theorem cdn_substring_eligible:
  assumes "\<not> startsWith u ''data:''" "\<not> startsWith u ''blob:''"
    and "newURL e u (Some pageUrl) = Some a" "downloadedAssets st (url_href a) = None"
    and "newURL e (url_href a) None = Some uo"
  shows "(normalizeOrigin e (url_origin uo) = None \<longrightarrow>
            downloadAsset e st u pageUrl = (None, st) \<and>
            downloadAsset_rescrape e st u pageUrl = (None, st)) \<and>
         (newURL e BASE None = Some b \<and> normalizeOrigin e (url_origin uo) = Some o1 \<and>
          normalizeOrigin e (url_origin b) = Some o2 \<longrightarrow>
            (if o1 = o2 \<or> (\<exists>d \<in> set commonCDNs. includes_str (url_hostname uo) d)
             then downloadAsset e st u pageUrl = fetchAsset getAssetPath e st (url_href a) uo \<and>
                  fetched (snd (downloadAsset e st u pageUrl)) = fetched st @ [url_href a] \<and>
                  downloadAsset_rescrape e st u pageUrl =
                    fetchAsset getAssetPath_rescrape e st (url_href a) uo \<and>
                  fetched (snd (downloadAsset_rescrape e st u pageUrl)) =
                    fetched st @ [url_href a]
             else downloadAsset e st u pageUrl = (None, st) \<and>
                  downloadAsset_rescrape e st u pageUrl = (None, st)))"
proof (intro conjI impI)
  assume "normalizeOrigin e (url_origin uo) = None"
  then have "isEligible e uo = None" by (rule isEligible_opaque)
  then have n: "isEligible e uo \<noteq> Some True" by simp
  show "downloadAsset e st u pageUrl = (None, st)"
    unfolding downloadAsset_def using assms n by (rule downloadAssetWith_refused)
  show "downloadAsset_rescrape e st u pageUrl = (None, st)"
    unfolding downloadAsset_rescrape_def using assms n by (rule downloadAssetWith_refused)
next
  assume h: "newURL e BASE None = Some b \<and> normalizeOrigin e (url_origin uo) = Some o1 \<and>
          normalizeOrigin e (url_origin b) = Some o2"
  let ?ok = "o1 = o2 \<or> (\<exists>d \<in> set commonCDNs. includes_str (url_hostname uo) d)"
  from h have h1: "newURL e BASE None = Some b"
    and h2: "normalizeOrigin e (url_origin uo) = Some o1"
    and h3: "normalizeOrigin e (url_origin b) = Some o2" by blast+
  from h1 h2 h3 have el: "isEligible e uo = Some ?ok" by (rule isEligible_Some)
  show "if ?ok
     then downloadAsset e st u pageUrl = fetchAsset getAssetPath e st (url_href a) uo \<and>
          fetched (snd (downloadAsset e st u pageUrl)) = fetched st @ [url_href a] \<and>
          downloadAsset_rescrape e st u pageUrl =
            fetchAsset getAssetPath_rescrape e st (url_href a) uo \<and>
          fetched (snd (downloadAsset_rescrape e st u pageUrl)) = fetched st @ [url_href a]
     else downloadAsset e st u pageUrl = (None, st) \<and>
          downloadAsset_rescrape e st u pageUrl = (None, st)"
  proof (cases ?ok)
    case True
    with el have t: "isEligible e uo = Some True" by simp
    have "downloadAssetWith gap e st u pageUrl = fetchAsset gap e st (url_href a) uo" for gap
      using assms t by (rule downloadAssetWith_eligible)
    then show ?thesis
      using True by (simp add: downloadAsset_def downloadAsset_rescrape_def fetchAsset_fetched)
  next
    case False
    with el have n: "isEligible e uo \<noteq> Some True" by simp
    have "downloadAssetWith gap e st u pageUrl = (None, st)" for gap
      using assms n by (rule downloadAssetWith_refused)
    then show ?thesis
      using False by (simp add: downloadAsset_def downloadAsset_rescrape_def)
  qed
qed

theorem cdn_substring_eligible_witness:
  "''unpkg.com.evil.example'' \<notin> set commonCDNs \<and>
   fetched (snd (downloadAsset (exampleEnv netDown) emptyStore
       ''https://unpkg.com.evil.example/x.js'' ''https://www.fruitpunch.ai/'')) =
     [''https://unpkg.com.evil.example/x.js''] \<and>
   fetched (snd (downloadAsset_rescrape (exampleEnv netDown) emptyStore
       ''https://unpkg.com.evil.example/x.js'' ''https://www.fruitpunch.ai/'')) =
     [''https://unpkg.com.evil.example/x.js''] \<and>
   downloadAsset (exampleEnv netDown) emptyStore
       ''https://evil.example/x.js'' ''https://www.fruitpunch.ai/'' = (None, emptyStore) \<and>
   downloadAsset fileEnv emptyStore
       ''file://unpkg.com/x.js'' ''https://www.fruitpunch.ai/'' = (None, emptyStore)"
proof -
  let ?e = "exampleEnv netDown"
  let ?p = "''https://www.fruitpunch.ai/''"
  let ?b = "\<lparr>url_href = ''https://www.fruitpunch.ai/'', url_origin = ''https://www.fruitpunch.ai'',
             url_hostname = ''www.fruitpunch.ai'', url_pathname = ''/''\<rparr>"
  have m: "downloadedAssets emptyStore k = None" for k
    by (simp add: emptyStore_def)
  have f: "fetched emptyStore @ [k] = [k]" for k
    by (simp add: emptyStore_def)
  have B: "newURL ?e BASE None = Some ?b" by code_simp
  have ob: "normalizeOrigin ?e (url_origin ?b) = Some ''https://fruitpunch.ai''" by code_simp
  let ?u = "''https://unpkg.com.evil.example/x.js''"
  let ?a = "\<lparr>url_href = ?u, url_origin = ''https://unpkg.com.evil.example'',
             url_hostname = ''unpkg.com.evil.example'', url_pathname = ''/x.js''\<rparr>"
  have 1: "\<not> startsWith ?u ''data:''" and 2: "\<not> startsWith ?u ''blob:''"
    by (simp_all add: startsWith_simps)
  have 3: "newURL ?e ?u (Some ?p) = Some ?a" by code_simp
  have 5: "newURL ?e (url_href ?a) None = Some ?a" by code_simp
  have 6: "normalizeOrigin ?e (url_origin ?a) = Some ''https://unpkg.com.evil.example''"
    by code_simp
  have 7: "\<exists>d \<in> set commonCDNs. includes_str (url_hostname ?a) d"
    by (simp add: commonCDNs_def startsWith_simps)
  have 9: "''unpkg.com.evil.example'' \<notin> set commonCDNs"
    by (simp add: commonCDNs_def)
  note t1 = cdn_substring_eligible[OF 1 2 3 m 5, THEN conjunct2, rule_format,
      OF conjI[OF B conjI[OF 6 ob]]]
  from 7 have P: "''https://unpkg.com.evil.example'' = ''https://fruitpunch.ai'' \<or>
      (\<exists>d \<in> set commonCDNs. includes_str (url_hostname ?a) d)" by (rule disjI2)
  note t1' = t1[unfolded if_P[OF P] f]
  have r1: "fetched (snd (downloadAsset ?e emptyStore ?u ?p)) = [?u]"
    using t1'[THEN conjunct2, THEN conjunct1] by simp
  have r2: "fetched (snd (downloadAsset_rescrape ?e emptyStore ?u ?p)) = [?u]"
    using t1'[THEN conjunct2, THEN conjunct2, THEN conjunct2] by simp
  let ?v = "''https://evil.example/x.js''"
  let ?c = "\<lparr>url_href = ?v, url_origin = ''https://evil.example'',
             url_hostname = ''evil.example'', url_pathname = ''/x.js''\<rparr>"
  have v1: "\<not> startsWith ?v ''data:''" and v2: "\<not> startsWith ?v ''blob:''"
    by (simp_all add: startsWith_simps)
  have v3: "newURL ?e ?v (Some ?p) = Some ?c" by code_simp
  have v5: "newURL ?e (url_href ?c) None = Some ?c" by code_simp
  have v6: "normalizeOrigin ?e (url_origin ?c) = Some ''https://evil.example''" by code_simp
  have v7: "\<not> (\<exists>d \<in> set commonCDNs. includes_str (url_hostname ?c) d)"
    by code_simp
  note t2 = cdn_substring_eligible[OF v1 v2 v3 m v5, THEN conjunct2, rule_format,
      OF conjI[OF B conjI[OF v6 ob]]]
  have "''https://evil.example'' \<noteq> ''https://fruitpunch.ai''" by simp
  with v7 have N: "\<not> (''https://evil.example'' = ''https://fruitpunch.ai'' \<or>
      (\<exists>d \<in> set commonCDNs. includes_str (url_hostname ?c) d))" by blast
  note t2' = t2[unfolded if_not_P[OF N]]
  from t2' have r3: "downloadAsset ?e emptyStore ?v ?p = (None, emptyStore)"
    by (rule conjunct1)
  let ?w = "''file://unpkg.com/x.js''"
  let ?d = "\<lparr>url_href = ?w, url_origin = ''null'',
             url_hostname = ''unpkg.com'', url_pathname = ''/x.js''\<rparr>"
  have w1: "\<not> startsWith ?w ''data:''" and w2: "\<not> startsWith ?w ''blob:''"
    by (simp_all add: startsWith_simps)
  have w3: "newURL fileEnv ?w (Some ?p) = Some ?d" by code_simp
  have w5: "newURL fileEnv (url_href ?d) None = Some ?d" by code_simp
  have w6: "normalizeOrigin fileEnv (url_origin ?d) = None" by code_simp
  note t3 = cdn_substring_eligible[OF w1 w2 w3 m w5, THEN conjunct1, rule_format, OF w6]
  from t3 have r4: "downloadAsset fileEnv emptyStore ?w ?p = (None, emptyStore)"
    by (rule conjunct1)
  from 9 r1 r2 r3 r4 show ?thesis by (intro conjI)
qed

subsection \<open>What the calls in flight do to the store\<close>

lemma stepWith_Call_Inl:
  "startAsset e (sys_store s) u pageUrl = Inl r \<Longrightarrow>
     stepWith gap e s (Call u pageUrl) = s\<lparr>sys_replies := sys_replies s @ [(u, r)]\<rparr>"
  by (simp add: stepWith_def)

lemma stepWith_Call_Inr:
  "startAsset e (sys_store s) u pageUrl = Inr (a, uo) \<Longrightarrow>
     stepWith gap e s (Call u pageUrl) =
       s\<lparr>sys_store := (sys_store s)\<lparr>fetched := fetched (sys_store s) @ [a]\<rparr>,
         sys_inflight := sys_inflight s @
           [(u, a, uo, fetch e (length (fetched (sys_store s))) a)]\<rparr>"
  by (simp add: stepWith_def)

lemma stepWith_Settle:
  assumes "i < length (sys_inflight s)" "sys_inflight s ! i = (u, a, uo, res)"
    and "settleAsset gap e (sys_store s) a uo res = (r, st')"
  shows "stepWith gap e s (Settle i) =
       \<lparr>sys_store = st',
        sys_inflight = take i (sys_inflight s) @ drop (Suc i) (sys_inflight s),
        sys_replies = sys_replies s @ [(u, r)]\<rparr>"
  using assms by (simp add: stepWith_def)

lemma stepWith_Settle_none:
  "\<not> i < length (sys_inflight s) \<Longrightarrow> stepWith gap e s (Settle i) = s"
  by (simp add: stepWith_def)

lemma inflightUrls_remove:
  "inflightUrls (s\<lparr>sys_inflight := take i (sys_inflight s) @ drop (Suc i) (sys_inflight s)\<rparr>)
     \<subseteq> inflightUrls s"
proof -
  have "set (take i (sys_inflight s) @ drop (Suc i) (sys_inflight s)) \<subseteq> set (sys_inflight s)"
    using set_take_subset[of i "sys_inflight s"] set_drop_subset[of "Suc i" "sys_inflight s"]
    by auto
  then have "(\<lambda>(u, a, uo, res). a) ` set (take i (sys_inflight s) @ drop (Suc i) (sys_inflight s))
      \<subseteq> (\<lambda>(u, a, uo, res). a) ` set (sys_inflight s)"
    by (rule image_mono)
  then show ?thesis unfolding inflightUrls_def by simp
qed

text \<open>
  One step, seen from a URL \<open>k\<close> that is stored: \<open>k\<close> stays stored, no request for \<open>k\<close> is
  sent, and if no request for \<open>k\<close> is in flight, its path stays the same and no request
  for it comes to be in flight.
\<close>

lemma stepWith_keeps:
  assumes k: "downloadedAssets (sys_store s) k = Some lp"
  shows "(\<exists>lp'. downloadedAssets (sys_store (stepWith gap e s ev)) k = Some lp') \<and>
         count_list (fetched (sys_store (stepWith gap e s ev))) k =
           count_list (fetched (sys_store s)) k \<and>
         (k \<notin> inflightUrls s \<longrightarrow>
            downloadedAssets (sys_store (stepWith gap e s ev)) k = Some lp \<and>
            k \<notin> inflightUrls (stepWith gap e s ev))"
proof (cases ev)
  case (Call u pageUrl)
  show ?thesis
  proof (cases "startAsset e (sys_store s) u pageUrl")
    case (Inl r)
    have "stepWith gap e s ev = s\<lparr>sys_replies := sys_replies s @ [(u, r)]\<rparr>"
      unfolding Call using Inl by (rule stepWith_Call_Inl)
    then show ?thesis using k by (simp add: inflightUrls_def)
  next
    case (Inr x)
    obtain a uo where x: "x = (a, uo)" by (cases x)
    from Inr have st: "startAsset e (sys_store s) u pageUrl = Inr (a, uo)" unfolding x .
    then have "downloadedAssets (sys_store s) a = None" by (rule startAsset_InrD)
    with k have ne: "a \<noteq> k" by auto
    have "stepWith gap e s ev =
        s\<lparr>sys_store := (sys_store s)\<lparr>fetched := fetched (sys_store s) @ [a]\<rparr>,
          sys_inflight := sys_inflight s @
            [(u, a, uo, fetch e (length (fetched (sys_store s))) a)]\<rparr>"
      unfolding Call using st by (rule stepWith_Call_Inr)
    then show ?thesis using k ne by (simp add: inflightUrls_def)
  qed
next
  case (Settle i)
  show ?thesis
  proof (cases "i < length (sys_inflight s)")
    case False
    then have "stepWith gap e s ev = s" unfolding Settle by (rule stepWith_Settle_none)
    then show ?thesis using k by simp
  next
    case True
    obtain u a uo res where c: "sys_inflight s ! i = (u, a, uo, res)"
      by (cases "sys_inflight s ! i")
    obtain r st' where t: "settleAsset gap e (sys_store s) a uo res = (r, st')"
      by (cases "settleAsset gap e (sys_store s) a uo res")
    have step: "stepWith gap e s ev =
         \<lparr>sys_store = st',
          sys_inflight = take i (sys_inflight s) @ drop (Suc i) (sys_inflight s),
          sys_replies = sys_replies s @ [(u, r)]\<rparr>"
      unfolding Settle using True c t by (rule stepWith_Settle)
    have f: "fetched st' = fetched (sys_store s)"
      using settleAsset_fetched[of gap e "sys_store s" a uo res] t by simp
    note m = settleAsset_memo[OF t]
    have ex: "\<exists>lp'. downloadedAssets st' k = Some lp'"
      unfolding m using k by (cases r) simp_all
    have a: "a \<in> inflightUrls s"
    proof -
      from True have "sys_inflight s ! i \<in> set (sys_inflight s)" by (rule nth_mem)
      then have "(u, a, uo, res) \<in> set (sys_inflight s)" unfolding c .
      then show ?thesis unfolding inflightUrls_def by force
    qed
    have same: "downloadedAssets st' k = Some lp" if "k \<notin> inflightUrls s"
    proof -
      from that a have "a \<noteq> k" by auto
      then show ?thesis unfolding m using k by (cases r) simp_all
    qed
    have sub: "inflightUrls (stepWith gap e s ev) \<subseteq> inflightUrls s"
      using inflightUrls_remove[of i s] unfolding step by (simp add: inflightUrls_def)
    from ex f same sub show ?thesis unfolding step by auto
  qed
qed

lemma runWith_Nil: "runWith gap e s [] = s"
  by (simp add: runWith_def)

lemma runWith_Cons: "runWith gap e s (ev # evs) = runWith gap e (stepWith gap e s ev) evs"
  by (simp add: runWith_def)

lemma runWith_snoc: "runWith gap e s (evs @ [ev]) = stepWith gap e (runWith gap e s evs) ev"
  by (simp add: runWith_def)

lemma runWith_stored:
  "downloadedAssets (sys_store s) k = Some lp \<Longrightarrow>
     (\<exists>lp'. downloadedAssets (sys_store (runWith gap e s evs)) k = Some lp') \<and>
     count_list (fetched (sys_store (runWith gap e s evs))) k =
       count_list (fetched (sys_store s)) k"
proof (induction evs arbitrary: s lp)
  case Nil
  then show ?case by (simp add: runWith_Nil)
next
  case (Cons ev evs)
  from stepWith_keeps[OF Cons.prems, of gap e ev]
  obtain lp' where 1: "downloadedAssets (sys_store (stepWith gap e s ev)) k = Some lp'"
    and 2: "count_list (fetched (sys_store (stepWith gap e s ev))) k =
           count_list (fetched (sys_store s)) k"
    by blast
  from Cons.IH[OF 1] 2 show ?case unfolding runWith_Cons by simp
qed

lemma runWith_stable:
  "downloadedAssets (sys_store s) k = Some lp \<Longrightarrow> k \<notin> inflightUrls s \<Longrightarrow>
     downloadedAssets (sys_store (runWith gap e s evs)) k = Some lp \<and>
     k \<notin> inflightUrls (runWith gap e s evs)"
proof (induction evs arbitrary: s)
  case Nil
  then show ?case by (simp add: runWith_Nil)
next
  case (Cons ev evs)
  from stepWith_keeps[OF Cons.prems(1), of gap e ev] Cons.prems(2)
  have 1: "downloadedAssets (sys_store (stepWith gap e s ev)) k = Some lp"
    and 2: "k \<notin> inflightUrls (stepWith gap e s ev)"
    by blast+
  from Cons.IH[OF 1 2] show ?case unfolding runWith_Cons .
qed

text \<open>A network that answers the first request as a stylesheet and the others as a font.\<close>

definition netTypes :: "nat \<Rightarrow> string \<Rightarrow> fetchResult" where
  "netTypes n u =
     (if n = 0 then Response True (Some ''text/css'') (Some ''body'')
      else Response True (Some ''font/woff2'') (Some ''body''))"

text \<open>
  C1, as stated, fails, also when every request succeeds. A page links the stylesheet
  \<^verbatim>\<open>https://www.fruitpunch.ai/css/main.css\<close>, which is stored when the requests of the
  page are downloaded, and shows the image \<^verbatim>\<open>/img/hero.png\<close>, which the browser has not
  requested; the stylesheet refers to the same image. \<^verbatim>\<open>rewriteHtml\<close> starts the calls for
  the stylesheet and the image together. The first returns the stored path at once, the
  second sends its request. The loop over the references of the stylesheet then calls for
  the image while that request is in flight, finds the image not stored, and requests it
  a second time. Both requests succeed.

  In the second run two references to one URL begin together and the network answers the
  two requests with different content types. The URL has no extension, so the two calls
  store different paths, and of the calls that begin after the URL is stored, one returns
  the first path and one the second.

  In the third run the two references come one after the other, and the first request is
  answered with a status that is not a success: the URL is requested twice, and the two
  callers observe different results.
\<close>

theorem downloadAsset_once_counterexample:
  "fetched (sys_store (run (exampleEnv netUp) emptySys
      [Call ''https://www.fruitpunch.ai/css/main.css'' ''https://www.fruitpunch.ai/'',
       Settle 0,
       Call ''https://www.fruitpunch.ai/css/main.css'' ''https://www.fruitpunch.ai/'',
       Call ''/img/hero.png'' ''https://www.fruitpunch.ai/'',
       Call ''/img/hero.png'' ''https://www.fruitpunch.ai/css/main.css'',
       Settle 0,
       Settle 0])) =
     [''https://www.fruitpunch.ai/css/main.css'', ''https://www.fruitpunch.ai/img/hero.png'',
      ''https://www.fruitpunch.ai/img/hero.png''] \<and>
   sys_replies (run (exampleEnv netUp) emptySys
      [Call ''https://www.fruitpunch.ai/css/main.css'' ''https://www.fruitpunch.ai/'',
       Settle 0,
       Call ''https://www.fruitpunch.ai/css/main.css'' ''https://www.fruitpunch.ai/'',
       Call ''/img/hero.png'' ''https://www.fruitpunch.ai/'',
       Call ''/img/hero.png'' ''https://www.fruitpunch.ai/css/main.css'',
       Settle 0,
       Settle 0]) =
     [(''https://www.fruitpunch.ai/css/main.css'', Some ''_assets/asset__css_main_css.css''),
      (''https://www.fruitpunch.ai/css/main.css'', Some ''_assets/asset__css_main_css.css''),
      (''/img/hero.png'', Some ''_assets/asset__img_hero_png.png''),
      (''/img/hero.png'', Some ''_assets/asset__img_hero_png.png'')] \<and>
   sys_replies (run (exampleEnv netTypes) emptySys
      [Call ''/font'' ''https://www.fruitpunch.ai/'',
       Call ''https://www.fruitpunch.ai/font'' ''https://www.fruitpunch.ai/'',
       Settle 0,
       Call ''/font'' ''https://www.fruitpunch.ai/blog/'',
       Settle 0,
       Call ''/font'' ''https://www.fruitpunch.ai/about/'']) =
     [(''/font'', Some ''_assets/asset__font.css''),
      (''/font'', Some ''_assets/asset__font.css''),
      (''https://www.fruitpunch.ai/font'', Some ''_assets/asset__font.woff2''),
      (''/font'', Some ''_assets/asset__font.woff2'')] \<and>
   fetched (sys_store (run (exampleEnv netFlaky) emptySys
      [Call ''https://www.fruitpunch.ai/css/main.css'' ''https://www.fruitpunch.ai/'',
       Settle 0,
       Call ''https://www.fruitpunch.ai/css/main.css'' ''https://www.fruitpunch.ai/blog/'',
       Settle 0])) =
     [''https://www.fruitpunch.ai/css/main.css'', ''https://www.fruitpunch.ai/css/main.css''] \<and>
   sys_replies (run (exampleEnv netFlaky) emptySys
      [Call ''https://www.fruitpunch.ai/css/main.css'' ''https://www.fruitpunch.ai/'',
       Settle 0,
       Call ''https://www.fruitpunch.ai/css/main.css'' ''https://www.fruitpunch.ai/blog/'',
       Settle 0]) =
     [(''https://www.fruitpunch.ai/css/main.css'', None),
      (''https://www.fruitpunch.ai/css/main.css'', Some ''_assets/asset__css_main_css.css'')]"
  by code_simp

text \<open>
  C1, amended. Calls begin and end in any order. From the moment an absolute URL is stored,
  which is the moment a call for it ends with a LocalPath, every call that begins later and
  resolves to that URL returns a stored LocalPath at once: it sends no request and changes
  nothing, whatever calls began or ended in between, and no further request for the URL is
  ever sent. If no other request for the URL was in flight at that moment, the LocalPath
  is the same for all these calls. A call that begins before that moment sends its own
  request: a URL referenced twice can be requested twice.
\<close>

theorem downloadAsset_memoized:
  assumes "downloadedAssets (sys_store s) (url_href a) = Some lp"
    and "\<not> startsWith u ''data:''" "\<not> startsWith u ''blob:''"
    and "newURL e u (Some pageUrl) = Some a"
  shows "(\<exists>lp'. downloadedAssets (sys_store (run e s evs)) (url_href a) = Some lp' \<and>
            startAsset e (sys_store (run e s evs)) u pageUrl = Inl (Some lp') \<and>
            run e s (evs @ [Call u pageUrl]) =
              (run e s evs)\<lparr>sys_replies := sys_replies (run e s evs) @ [(u, Some lp')]\<rparr> \<and>
            (url_href a \<notin> inflightUrls s \<longrightarrow> lp' = lp)) \<and>
         count_list (fetched (sys_store (run e s (evs @ [Call u pageUrl])))) (url_href a) =
           count_list (fetched (sys_store s)) (url_href a) \<and>
         (settleAsset getAssetPath e st0 (url_href a) uo res = (Some lp, st1) \<longrightarrow>
            downloadedAssets st1 (url_href a) = Some lp)"
proof (intro conjI impI)
  let ?r = "run e s evs"
  from runWith_stored[OF assms(1), of getAssetPath e evs]
  obtain lp' where m: "downloadedAssets (sys_store ?r) (url_href a) = Some lp'"
    unfolding run_def by blast
  from assms(2-4) m have st: "startAsset e (sys_store ?r) u pageUrl = Inl (Some lp')"
    by (rule startAsset_hit)
  have step: "run e s (evs @ [Call u pageUrl]) =
      ?r\<lparr>sys_replies := sys_replies ?r @ [(u, Some lp')]\<rparr>"
    unfolding run_def runWith_snoc using st[unfolded run_def] by (rule stepWith_Call_Inl)
  have same: "lp' = lp" if "url_href a \<notin> inflightUrls s"
    using runWith_stable[OF assms(1) that, of getAssetPath e evs] m unfolding run_def by simp
  from m st step same
  show "\<exists>lp'. downloadedAssets (sys_store ?r) (url_href a) = Some lp' \<and>
      startAsset e (sys_store ?r) u pageUrl = Inl (Some lp') \<and>
      run e s (evs @ [Call u pageUrl]) = ?r\<lparr>sys_replies := sys_replies ?r @ [(u, Some lp')]\<rparr> \<and>
      (url_href a \<notin> inflightUrls s \<longrightarrow> lp' = lp)"
    by blast
  show "count_list (fetched (sys_store (run e s (evs @ [Call u pageUrl])))) (url_href a) =
      count_list (fetched (sys_store s)) (url_href a)"
    using runWith_stored[OF assms(1), of getAssetPath e "evs @ [Call u pageUrl]"]
    unfolding run_def by blast
next
  assume "settleAsset getAssetPath e st0 (url_href a) uo res = (Some lp, st1)"
  from settleAsset_memo[OF this] show "downloadedAssets st1 (url_href a) = Some lp" by simp
qed

theorem downloadAsset_memoized_witness:
  "startAsset (exampleEnv netUp)
     (sys_store (run (exampleEnv netUp)
        (run (exampleEnv netUp) emptySys
           [Call ''https://www.fruitpunch.ai/css/main.css'' ''https://www.fruitpunch.ai/'',
            Settle 0])
        [Call ''/js/app.js'' ''https://www.fruitpunch.ai/'',
         Call ''/img/hero.png'' ''https://www.fruitpunch.ai/'',
         Settle 1, Settle 0]))
     ''/css/main.css'' ''https://www.fruitpunch.ai/blog/'' =
   Inl (Some ''_assets/asset__css_main_css.css'') \<and>
   count_list (fetched (sys_store (run (exampleEnv netUp)
        (run (exampleEnv netUp) emptySys
           [Call ''https://www.fruitpunch.ai/css/main.css'' ''https://www.fruitpunch.ai/'',
            Settle 0])
        ([Call ''/js/app.js'' ''https://www.fruitpunch.ai/'',
          Call ''/img/hero.png'' ''https://www.fruitpunch.ai/'',
          Settle 1, Settle 0] @
         [Call ''/css/main.css'' ''https://www.fruitpunch.ai/blog/'']))))
     ''https://www.fruitpunch.ai/css/main.css'' = 1"
proof -
  let ?e = "exampleEnv netUp"
  let ?u = "''https://www.fruitpunch.ai/css/main.css''"
  let ?a = "\<lparr>url_href = ?u, url_origin = ''https://www.fruitpunch.ai'',
             url_hostname = ''www.fruitpunch.ai'', url_pathname = ''/css/main.css''\<rparr>"
  let ?s = "run ?e emptySys [Call ?u ''https://www.fruitpunch.ai/'', Settle 0]"
  have 1: "downloadedAssets (sys_store ?s) (url_href ?a) = Some ''_assets/asset__css_main_css.css''"
    by code_simp
  have 2: "\<not> startsWith ''/css/main.css'' ''data:''" and 3: "\<not> startsWith ''/css/main.css'' ''blob:''"
    by (simp_all add: startsWith_simps)
  have 4: "newURL ?e ''/css/main.css'' (Some ''https://www.fruitpunch.ai/blog/'') = Some ?a"
    by code_simp
  have 5: "url_href ?a \<notin> inflightUrls ?s"
    by code_simp
  have 6: "count_list (fetched (sys_store ?s)) (url_href ?a) = 1"
    by code_simp
  note t = downloadAsset_memoized[OF 1 2 3 4]
  from t[THEN conjunct1, of "[Call ''/js/app.js'' ''https://www.fruitpunch.ai/'',
         Call ''/img/hero.png'' ''https://www.fruitpunch.ai/'', Settle 1, Settle 0]"]
  obtain lp' where a: "startAsset ?e (sys_store (run ?e ?s
        [Call ''/js/app.js'' ''https://www.fruitpunch.ai/'',
         Call ''/img/hero.png'' ''https://www.fruitpunch.ai/'', Settle 1, Settle 0]))
      ''/css/main.css'' ''https://www.fruitpunch.ai/blog/'' = Inl (Some lp')"
    and b: "url_href ?a \<notin> inflightUrls ?s \<longrightarrow> lp' = ''_assets/asset__css_main_css.css''"
    by blast
  from b 5 have "lp' = ''_assets/asset__css_main_css.css''" by (rule mp)
  with a have A: "startAsset ?e (sys_store (run ?e ?s
        [Call ''/js/app.js'' ''https://www.fruitpunch.ai/'',
         Call ''/img/hero.png'' ''https://www.fruitpunch.ai/'', Settle 1, Settle 0]))
      ''/css/main.css'' ''https://www.fruitpunch.ai/blog/'' =
      Inl (Some ''_assets/asset__css_main_css.css'')"
    by (simp only:)
  have B: "count_list (fetched (sys_store (run ?e ?s
        ([Call ''/js/app.js'' ''https://www.fruitpunch.ai/'',
          Call ''/img/hero.png'' ''https://www.fruitpunch.ai/'', Settle 1, Settle 0] @
         [Call ''/css/main.css'' ''https://www.fruitpunch.ai/blog/''])))) ?u = 1"
    using t[THEN conjunct2, THEN conjunct1, of "[Call ''/js/app.js'' ''https://www.fruitpunch.ai/'',
         Call ''/img/hero.png'' ''https://www.fruitpunch.ai/'', Settle 1, Settle 0]"] 6
    by (simp only: url.simps)
  from A B show ?thesis by (rule conjI)
qed

section \<open>MirrorDriver: the report merge\<close>

text \<open>
  A result of \<^verbatim>\<open>scrapeUrls\<close> is \<^verbatim>\<open>{ url, ok: true }\<close> or
  \<^verbatim>\<open>{ url, ok: false, reason }\<close>; the failed results are stored in the report as they are.
  The report file, when it is there and parses, may lack \<^verbatim>\<open>total\<close> and \<^verbatim>\<open>failed\<close>.
\<close>

record pageResult =
  r_url :: string
  r_ok :: bool
  r_reason :: string

record report =
  total :: "nat option"
  failed :: "pageResult list"
  assetsDownloaded :: nat

datatype persisted =
    NoReport
  | Unreadable
  | Existing (p_total: "nat option") (p_failed: "pageResult list option")

text \<open>
  The end of the main function of \<^verbatim>\<open>scrape.mjs\<close>:
  \<^verbatim>\<open>
  const failed = results.filter((r) => !r.ok);
  let report = { total: urls.length, failed, assetsDownloaded: downloadedAssets.size };
  if (fs.existsSync(reportPath)) {
    try {
      const existing = JSON.parse(fs.readFileSync(reportPath, "utf-8"));
      const existingFailedUrls = new Set(existing.failed?.map(f => f.url) || []);
      const newFailed = failed.filter(f => !existingFailedUrls.has(f.url));
      if (newFailed.length > 0) {
        existing.failed = [...(existing.failed || []), ...newFailed];
        existing.total = Math.max(existing.total || 0, urls.length);
        existing.assetsDownloaded = downloadedAssets.size;
        report = existing;
      } else {
        const successUrls = new Set(results.filter(r => r.ok).map(r => r.url));
        if (successUrls.size > 0 && existing.failed) {
          existing.failed = existing.failed.filter(f => !successUrls.has(f.url));
          existing.assetsDownloaded = downloadedAssets.size;
          report = existing;
        }
      }
    } catch (e) { }
  }
  \<close>
  \<open>mergeReport n results assets p\<close> is the report written, for \<open>n\<close> URLs, the results
  of the run, \<open>assets\<close> stored assets and the report file \<open>p\<close>.
\<close>

definition mergeReport :: "nat \<Rightarrow> pageResult list \<Rightarrow> nat \<Rightarrow> persisted \<Rightarrow> report" where
  "mergeReport n results assets p =
     (let failedNow = filter (\<lambda>r. \<not> r_ok r) results;
          fresh = \<lparr>total = Some n, failed = failedNow, assetsDownloaded = assets\<rparr>
      in case p of
           NoReport \<Rightarrow> fresh
         | Unreadable \<Rightarrow> fresh
         | Existing t f \<Rightarrow>
             (let existingFailed = (case f of None \<Rightarrow> [] | Some l \<Rightarrow> l);
                  newFailed = filter (\<lambda>r. r_url r \<notin> set (map r_url existingFailed)) failedNow
              in if newFailed \<noteq> [] then
                   \<lparr>total = Some (max (case t of None \<Rightarrow> 0 | Some k \<Rightarrow> k) n),
                    failed = existingFailed @ newFailed, assetsDownloaded = assets\<rparr>
                 else
                   (let successUrls = map r_url (filter r_ok results)
                    in case f of
                         None \<Rightarrow> fresh
                       | Some l \<Rightarrow>
                           if successUrls \<noteq> [] then
                             \<lparr>total = t, failed = filter (\<lambda>r. r_url r \<notin> set successUrls) l,
                              assetsDownloaded = assets\<rparr>
                           else fresh)))"

text \<open>
  C2. The report holds one earlier failure, of \<^verbatim>\<open>/a\<close>. A run of two URLs succeeds on
  \<^verbatim>\<open>/a\<close> and fails on \<^verbatim>\<open>/b\<close>. The merged report lists \<^verbatim>\<open>/a\<close> and \<^verbatim>\<open>/b\<close> as
  failed: the new failure is appended, and the URL that succeeded is not pruned, because
  pruning stands in the \<^verbatim>\<open>else\<close> branch of the test for new failures. In the same
  branch, a run with no success and no new failure replaces the report by that of the run:
  with \<^verbatim>\<open>/a\<close> and \<^verbatim>\<open>/c\<close> on file and a run that fails on \<^verbatim>\<open>/a\<close> again, the entry of
  \<^verbatim>\<open>/c\<close> is lost.
\<close>

theorem mergeReport_mixed_run:
  "failed (mergeReport 2
      [\<lparr>r_url = ''https://www.fruitpunch.ai/a'', r_ok = True, r_reason = []\<rparr>,
       \<lparr>r_url = ''https://www.fruitpunch.ai/b'', r_ok = False, r_reason = ''timeout''\<rparr>]
      0
      (Existing (Some 2)
        (Some [\<lparr>r_url = ''https://www.fruitpunch.ai/a'', r_ok = False, r_reason = ''timeout''\<rparr>]))) =
     [\<lparr>r_url = ''https://www.fruitpunch.ai/a'', r_ok = False, r_reason = ''timeout''\<rparr>,
      \<lparr>r_url = ''https://www.fruitpunch.ai/b'', r_ok = False, r_reason = ''timeout''\<rparr>] \<and>
   failed (mergeReport 1
      [\<lparr>r_url = ''https://www.fruitpunch.ai/a'', r_ok = False, r_reason = ''timeout''\<rparr>]
      0
      (Existing (Some 2)
        (Some [\<lparr>r_url = ''https://www.fruitpunch.ai/a'', r_ok = False, r_reason = ''timeout''\<rparr>,
               \<lparr>r_url = ''https://www.fruitpunch.ai/c'', r_ok = False, r_reason = ''timeout''\<rparr>]))) =
     [\<lparr>r_url = ''https://www.fruitpunch.ai/a'', r_ok = False, r_reason = ''timeout''\<rparr>]"
  by code_simp

text \<open>
  What the merge does keep: when the run has a failure that is not on file, every entry on
  file stays, in place, and the entries added are failures of the run whose URLs are not on
  file; when it has none and some URL succeeded, the entries on file of the URLs that
  succeeded are removed and the others stay, in order.
\<close>

lemma mergeReport_append:
  assumes "filter (\<lambda>r. r_url r \<notin> set (map r_url l)) (filter (\<lambda>r. \<not> r_ok r) results) \<noteq> []"
  shows "failed (mergeReport n results assets (Existing t (Some l))) =
           l @ filter (\<lambda>r. r_url r \<notin> set (map r_url l)) (filter (\<lambda>r. \<not> r_ok r) results)"
  using assms by (simp add: mergeReport_def Let_def)

lemma mergeReport_prune:
  assumes "filter (\<lambda>r. r_url r \<notin> set (map r_url l)) (filter (\<lambda>r. \<not> r_ok r) results) = []"
    and "filter r_ok results \<noteq> []"
  shows "failed (mergeReport n results assets (Existing t (Some l))) =
           filter (\<lambda>r. r_url r \<notin> set (map r_url (filter r_ok results))) l"
  using assms by (simp add: mergeReport_def Let_def)

section \<open>Rewriting by regular expression\<close>

subsection \<open>\<^verbatim>\<open>String.prototype.replace\<close>\<close>

text \<open>
  \<^verbatim>\<open>str.replace(regexp, callback)\<close> with the flag \<^verbatim>\<open>g\<close> walks the string from
  the left: where the expression matches, the match is handed to the callback and the
  walk goes on behind it; where it does not, one code unit is copied. A \<open>matcher\<close> is the
  expression at one position: the length of the match and the capture group, or
  \<open>None\<close>. None of the expressions of the scripts matches the empty string; a matcher
  that returned length 0 would be treated as no match.
\<close>

datatype token = Lit char | Match string string

type_synonym matcher = "string \<Rightarrow> (nat \<times> string) option"

function scan :: "matcher \<Rightarrow> string \<Rightarrow> token list" where
  "scan m [] = []"
| "scan m (c # cs) =
     (case m (c # cs) of
        None \<Rightarrow> Lit c # scan m cs
      | Some (n, g) \<Rightarrow>
          if n = 0 then Lit c # scan m cs
          else Match (take n (c # cs)) g # scan m (drop n (c # cs)))"
  by pat_completeness auto
termination
  by (relation "measure (\<lambda>(m, s). length s)") auto

definition render :: "(string \<Rightarrow> string \<Rightarrow> string) \<Rightarrow> token \<Rightarrow> string" where
  "render f t = (case t of Lit c \<Rightarrow> [c] | Match mt g \<Rightarrow> f mt g)"

definition replaceAll :: "matcher \<Rightarrow> (string \<Rightarrow> string \<Rightarrow> string) \<Rightarrow> string \<Rightarrow> string" where
  "replaceAll m f s = concat (map (render f) (scan m s))"

text \<open>The same with a callback that may throw: \<open>None\<close> when a call throws.\<close>

definition renderOpt :: "(string \<Rightarrow> string \<Rightarrow> string option) \<Rightarrow> token \<Rightarrow> string option" where
  "renderOpt f t = (case t of Lit c \<Rightarrow> Some [c] | Match mt g \<Rightarrow> f mt g)"

definition replaceAllOpt ::
  "matcher \<Rightarrow> (string \<Rightarrow> string \<Rightarrow> string option) \<Rightarrow> string \<Rightarrow> string option" where
  "replaceAllOpt m f s = map_option concat (those (map (renderOpt f) (scan m s)))"

text \<open>
  \<^verbatim>\<open>str.replace(pattern, replacement)\<close> with two strings replaces the first occurrence of
  \<open>pattern\<close>. In the replacement, \<^verbatim>\<open>$$\<close> stands for a dollar sign, \<^verbatim>\<open>$&\<close> for the
  matched text, \<^verbatim>\<open>$`\<close> for the text before the match and \<^verbatim>\<open>$'\<close> for the text
  behind it; there are no capture groups, so every other dollar sign stands for itself.
\<close>

fun findSub :: "string \<Rightarrow> string \<Rightarrow> (string \<times> string) option" where
  "findSub pat [] = (if pat = [] then Some ([], []) else None)"
| "findSub pat (c # cs) =
     (if startsWith (c # cs) pat then Some ([], drop (length pat) (c # cs))
      else (case findSub pat cs of None \<Rightarrow> None | Some (b, a) \<Rightarrow> Some (c # b, a)))"

fun getSubstitution :: "string \<Rightarrow> string \<Rightarrow> string \<Rightarrow> string \<Rightarrow> string" where
  "getSubstitution matched pre post (c # d # r) =
     (if c = CHR ''$'' \<and> d = CHR ''$'' then CHR ''$'' # getSubstitution matched pre post r
      else if c = CHR ''$'' \<and> d = CHR ''&'' then matched @ getSubstitution matched pre post r
      else if c = CHR ''$'' \<and> d = CHR 0x60 then pre @ getSubstitution matched pre post r
      else if c = CHR ''$'' \<and> d = CHR 0x27 then post @ getSubstitution matched pre post r
      else c # getSubstitution matched pre post (d # r))"
| "getSubstitution matched pre post r = r"

definition jsReplace :: "string \<Rightarrow> string \<Rightarrow> string \<Rightarrow> string" where
  "jsReplace s pat rep =
     (case findSub pat s of
        None \<Rightarrow> s
      | Some (b, a) \<Rightarrow> b @ getSubstitution pat b a rep @ a)"

subsection \<open>The expressions\<close>

definition isQuote :: "char \<Rightarrow> bool" where
  "isQuote c = (c = CHR 0x22 \<or> c = CHR 0x27)"

text \<open>
  \<^verbatim>\<open>/href=["']([^"']+)["']/gi\<close> and \<^verbatim>\<open>/srcset=["']([^"']+)["']/gi\<close>: the name and the
  equals sign up to case, a quote, the longest run of code units that are not quotes,
  which must not be empty, and a quote. The group cannot step over a quote, so a shorter
  run cannot be followed by one.
\<close>

definition attrMatch :: "string \<Rightarrow> matcher" where
  "attrMatch name s =
     (if ciPrefix name s then
        (case drop (length name) s of
           [] \<Rightarrow> None
         | q # t \<Rightarrow>
             if isQuote q then
               (case dropWhile (\<lambda>c. \<not> isQuote c) t of
                  [] \<Rightarrow> None
                | q2 # rest \<Rightarrow>
                    if takeWhile (\<lambda>c. \<not> isQuote c) t = [] then None
                    else Some (length name + 1 + length (takeWhile (\<lambda>c. \<not> isQuote c) t) + 1,
                               takeWhile (\<lambda>c. \<not> isQuote c) t))
             else None)
      else None)"

text \<open>
  \<^verbatim>\<open>/<link[^>]+href=["']([^"']+)["'][^>]*>/gi\<close>, and the same for \<^verbatim>\<open><script ... src=\<close> and
  \<^verbatim>\<open><img ... src=\<close>. After the tag name, \<^verbatim>\<open>[^>]+\<close> is greedy: it first takes every code
  unit up to the next \<^verbatim>\<open>>\<close> and then gives them back one by one, down to one, until the
  rest matches. The rest, \<open>tagTail\<close>, is the attribute as above, then \<^verbatim>\<open>[^>]*\<close>, which
  ends at the next \<^verbatim>\<open>>\<close>, then \<^verbatim>\<open>>\<close>.
\<close>

definition tagTail :: "string \<Rightarrow> matcher" where
  "tagTail attr t =
     (case attrMatch attr t of
        None \<Rightarrow> None
      | Some (n, v) \<Rightarrow>
          (case dropWhile (\<lambda>c. c \<noteq> CHR ''>'') (drop n t) of
             [] \<Rightarrow> None
           | gt # rest \<Rightarrow>
               Some (n + length (takeWhile (\<lambda>c. c \<noteq> CHR ''>'') (drop n t)) + 1, v)))"

primrec tagTry :: "string \<Rightarrow> string \<Rightarrow> nat \<Rightarrow> (nat \<times> string) option" where
  "tagTry attr t 0 = None"
| "tagTry attr t (Suc k) =
     (case tagTail attr (drop (Suc k) t) of
        Some (n, v) \<Rightarrow> Some (Suc k + n, v)
      | None \<Rightarrow> tagTry attr t k)"

definition tagMatch :: "string \<Rightarrow> string \<Rightarrow> matcher" where
  "tagMatch tag attr s =
     (if ciPrefix tag s then
        (case tagTry attr (drop (length tag) s)
                (length (takeWhile (\<lambda>c. c \<noteq> CHR ''>'') (drop (length tag) s))) of
           None \<Rightarrow> None
         | Some (n, v) \<Rightarrow> Some (length tag + n, v))
      else None)"

text \<open>
  \<^verbatim>\<open>/url\(["']?([^"')]+)["']?\)/gi\<close>: \<^verbatim>\<open>url(\<close> up to case, a quote if there is one, the
  longest run of code units that are neither quotes nor \<^verbatim>\<open>)\<close>, which must not be empty,
  a quote if there is one, and \<^verbatim>\<open>)\<close>.
\<close>

definition isCssDelim :: "char \<Rightarrow> bool" where
  "isCssDelim c = (isQuote c \<or> c = CHR '')'')"

definition skipQuote :: "string \<Rightarrow> string" where
  "skipQuote s = (case s of [] \<Rightarrow> [] | q # t \<Rightarrow> if isQuote q then t else q # t)"

definition urlMatch :: matcher where
  "urlMatch s =
     (if ciPrefix ''url('' s then
        (let t = skipQuote (drop 4 s);
             v = takeWhile (\<lambda>c. \<not> isCssDelim c) t;
             r = skipQuote (dropWhile (\<lambda>c. \<not> isCssDelim c) t)
         in if v \<noteq> [] \<and> startsWith r '')''
            then Some (length s - length r + 1, v) else None)
      else None)"

subsection \<open>Internal links: \<^verbatim>\<open>rewriteInternalLinks\<close>\<close>

text \<open>
  The end of the callback, the same in \<^verbatim>\<open>scrape.mjs\<close> and \<^verbatim>\<open>fix-links.mjs\<close>:
  \<^verbatim>\<open>
  if (targetPath) {
    const localPath = safeFileName(targetPath);
    const targetFile = path.join(OUT, localPath, 'index.html');
    if (fs.existsSync(targetFile)) {
      const relativePath = path.relative(pageDir, targetFile).replace(/\\/g, '/');
      return match.replace(href, relativePath);
    }
  }
  return match;
  \<close>
  \<open>ex\<close> is \<^verbatim>\<open>fs.existsSync\<close>: the paths that exist on disk.
\<close>

definition linkTo ::
  "env \<Rightarrow> (string list \<Rightarrow> bool) \<Rightarrow> string list \<Rightarrow> string \<Rightarrow> string \<Rightarrow> string \<Rightarrow> string" where
  "linkTo e ex pageDir mt href targetPath =
     (if targetPath \<noteq> [] then
        (let localPath = safeFileName targetPath;
             targetFile = pathJoin (OUT e) [localPath, ''index.html'']
         in if ex targetFile
            then jsReplace mt href (slashes (pathRelative pageDir targetFile))
            else mt)
      else mt)"

text \<open>The hrefs both callbacks skip first: anchors, mail, telephone, script and data links.\<close>

definition skippedHref :: "string \<Rightarrow> bool" where
  "skippedHref href =
     (startsWith href ''#'' \<or> startsWith href ''mailto:'' \<or> startsWith href ''tel:'' \<or>
      startsWith href ''javascript:'' \<or> startsWith href ''data:'' \<or> href = ''#'' \<or> href = [])"

text \<open>
  Whether a parsed URL is of the mirrored site:
  \<^verbatim>\<open>normalizeOrigin(hrefUrl.origin) === normalizeOrigin(baseUrlObj.origin)\<close>;
  \<open>None\<close> where \<^verbatim>\<open>normalizeOrigin\<close> throws (the callbacks catch it and return the match).
\<close>

definition sameSite :: "env \<Rightarrow> url \<Rightarrow> url \<Rightarrow> bool option" where
  "sameSite e u baseUrlObj =
     (case normalizeOrigin e (url_origin u) of
        None \<Rightarrow> None
      | Some o1 \<Rightarrow>
          (case normalizeOrigin e (url_origin baseUrlObj) of
             None \<Rightarrow> None
           | Some o2 \<Rightarrow> Some (o1 = o2)))"

text \<open>
  The callback of \<^verbatim>\<open>rewriteInternalLinks\<close> in \<^verbatim>\<open>scrape.mjs\<close>. The branches, in the order
  of the source: skipped hrefs; \<^verbatim>\<open>http://\<close> and \<^verbatim>\<open>https://\<close> URLs, kept unless of the
  same site; hrefs that start with a slash, taken as the target path as they are; the
  other hrefs that do not start with two slashes, resolved against the page URL; and a
  last branch that returns the match.
\<close>

definition linkCallback ::
  "env \<Rightarrow> (string list \<Rightarrow> bool) \<Rightarrow> url \<Rightarrow> string \<Rightarrow> string list \<Rightarrow> string \<Rightarrow> string \<Rightarrow> string" where
  "linkCallback e ex baseUrlObj pageUrl pageDir mt href =
     (if skippedHref href then mt
      else if startsWith href ''http://'' \<or> startsWith href ''https://'' then
        (case newURL e href None of
           None \<Rightarrow> mt
         | Some hrefUrl \<Rightarrow>
             (case sameSite e hrefUrl baseUrlObj of
                None \<Rightarrow> mt
              | Some same \<Rightarrow>
                  if same then linkTo e ex pageDir mt href (url_pathname hrefUrl) else mt))
      else if startsWith href ''/'' then linkTo e ex pageDir mt href href
      else if \<not> startsWith href ''//'' then
        (case newURL e href (Some pageUrl) of
           None \<Rightarrow> mt
         | Some resolvedUrl \<Rightarrow>
             (case sameSite e resolvedUrl baseUrlObj of
                None \<Rightarrow> mt
              | Some same \<Rightarrow>
                  if same then linkTo e ex pageDir mt href (url_pathname resolvedUrl) else mt))
      else mt)"

text \<open>
  \<^verbatim>\<open>rewriteInternalLinks(html, pageUrl, pageDir)\<close> of \<^verbatim>\<open>scrape.mjs\<close>. It starts with
  \<^verbatim>\<open>new URL(pageUrl)\<close> and \<^verbatim>\<open>new URL(BASE)\<close>, outside any \<^verbatim>\<open>try\<close>: \<open>None\<close> where one
  of them throws.
\<close>

definition rewriteInternalLinks ::
  "env \<Rightarrow> (string list \<Rightarrow> bool) \<Rightarrow> string \<Rightarrow> string \<Rightarrow> string list \<Rightarrow> string option" where
  "rewriteInternalLinks e ex html pageUrl pageDir =
     (case newURL e pageUrl None of
        None \<Rightarrow> None
      | Some pageUrlObj \<Rightarrow>
          (case newURL e BASE None of
             None \<Rightarrow> None
           | Some baseUrlObj \<Rightarrow>
               Some (replaceAll (attrMatch ''href='')
                       (linkCallback e ex baseUrlObj pageUrl pageDir) html)))"

text \<open>
  The callback of \<^verbatim>\<open>fix-links.mjs\<close>. It differs in the fourth branch: there is no page
  URL, and a relative href is returned as it is.
\<close>

definition fixCallback ::
  "env \<Rightarrow> (string list \<Rightarrow> bool) \<Rightarrow> url \<Rightarrow> string list \<Rightarrow> string \<Rightarrow> string \<Rightarrow> string" where
  "fixCallback e ex baseUrlObj pageDir mt href =
     (if skippedHref href then mt
      else if startsWith href ''http://'' \<or> startsWith href ''https://'' then
        (case newURL e href None of
           None \<Rightarrow> mt
         | Some hrefUrl \<Rightarrow>
             (case sameSite e hrefUrl baseUrlObj of
                None \<Rightarrow> mt
              | Some same \<Rightarrow>
                  if same then linkTo e ex pageDir mt href (url_pathname hrefUrl) else mt))
      else if startsWith href ''/'' then linkTo e ex pageDir mt href href
      else if \<not> startsWith href ''//'' then mt
      else mt)"

text \<open>
  \<^verbatim>\<open>rewriteInternalLinks(html, filePath)\<close> of \<^verbatim>\<open>fix-links.mjs\<close>, with
  \<^verbatim>\<open>pageDir = path.dirname(filePath)\<close>; \<open>filePath\<close> is the absolute path of an
  \<^verbatim>\<open>index.html\<close> found under the mirror root.
\<close>

definition fixLinks ::
  "env \<Rightarrow> (string list \<Rightarrow> bool) \<Rightarrow> string \<Rightarrow> string list \<Rightarrow> string option" where
  "fixLinks e ex html filePath =
     (case newURL e BASE None of
        None \<Rightarrow> None
      | Some baseUrlObj \<Rightarrow>
          Some (replaceAll (attrMatch ''href='')
                  (fixCallback e ex baseUrlObj (butlast filePath)) html))"

subsection \<open>What the link callbacks do\<close>

lemma linkCallback_skipped: "skippedHref href \<Longrightarrow> linkCallback e ex b pageUrl pageDir mt href = mt"
  by (simp add: linkCallback_def)

lemma skippedHref_examples:
  "skippedHref ''#top''" "skippedHref ''mailto:a@b.com''" "skippedHref ''tel:+31''"
  "skippedHref ''javascript:void(0)''" "skippedHref ''data:text/plain,x''" "skippedHref []"
  by (simp_all add: skippedHref_def startsWith_simps)

lemma linkCallback_absolute_url:
  assumes "\<not> skippedHref href" "startsWith href ''http://'' \<or> startsWith href ''https://''"
    and "newURL e href None = Some u"
  shows "linkCallback e ex b pageUrl pageDir mt href =
           (case sameSite e u b of
              Some True \<Rightarrow> linkTo e ex pageDir mt href (url_pathname u)
            | _ \<Rightarrow> mt)"
  using assms by (simp add: linkCallback_def split: option.splits bool.splits)

lemma linkCallback_absolute_path:
  assumes "\<not> skippedHref href" "startsWith href ''/''"
  shows "linkCallback e ex b pageUrl pageDir mt href =
           (if ex (pathJoin (OUT e) [safeFileName href, ''index.html''])
            then jsReplace mt href
                   (slashes (pathRelative pageDir (pathJoin (OUT e) [safeFileName href, ''index.html''])))
            else mt)"
proof -
  from assms(2) have "href \<noteq> []" "\<not> startsWith href ''http://''" "\<not> startsWith href ''https://''"
    by (cases href; simp add: startsWith_simps)+
  with assms show ?thesis by (simp add: linkCallback_def linkTo_def Let_def)
qed

text \<open>Two disks for the examples, given by the paths that exist.\<close>

definition aboutDisk :: "string list \<Rightarrow> bool" where
  "aboutDisk p = (p = [''srv'', ''offline'', ''about'', ''index.html''])"

definition dollarDisk :: "string list \<Rightarrow> bool" where
  "dollarDisk p =
     (p = [''srv'', ''offline'', ''a'', ''index.html''] \<or>
      p = [''srv'', ''offline'', ''a'', ''$&'', ''index.html''] \<or>
      p = [''srv'', ''offline'', ''a'', ''$&'', ''index.html'', ''index.html''])"

text \<open>
  C7. A protocol-relative href starts with a slash, so the branch for absolute paths takes
  it before the test for two slashes is reached, and that test, with the branch behind it,
  never sees one. With the page \<^verbatim>\<open>/about/\<close> on disk, the href \<^verbatim>\<open>//about/\<close> (the host
  \<^verbatim>\<open>about\<close>) is rewritten to the local page, as the href \<^verbatim>\<open>/about/\<close> is; the claim says
  it is left unchanged.
\<close>

theorem rewriteInternalLinks_protocol_relative:
  \<open>rewriteInternalLinks (exampleEnv netDown) aboutDisk
      ''<a href="//about/">About</a>'' ''https://www.fruitpunch.ai/''
      [''srv'', ''offline'', ''index''] =
    Some ''<a href="../about/index.html">About</a>'' \<and>
   rewriteInternalLinks (exampleEnv netDown) aboutDisk
      ''<a href="/about/">About</a>'' ''https://www.fruitpunch.ai/''
      [''srv'', ''offline'', ''index''] =
    Some ''<a href="../about/index.html">About</a>''\<close>
  by code_simp

text \<open>
  C5. The new href is put in with \<^verbatim>\<open>match.replace(href, relativePath)\<close>, which reads
  \<^verbatim>\<open>$&\<close> in the relative path as the text matched, the old href. The mirror holds the
  pages \<^verbatim>\<open>/a\<close>, \<^verbatim>\<open>/a/$&\<close> and \<^verbatim>\<open>/a/$&/index.html\<close>, and the document of \<^verbatim>\<open>/a\<close> links
  to \<^verbatim>\<open>/a/$&\<close>. The first pass writes the href \<^verbatim>\<open>/a/$&/index.html\<close>, not a relative
  path; the second pass, on the output of the first and with the same files on disk,
  changes it again.
\<close>

theorem fixLinks_second_pass_changes:
  \<open>fixLinks (exampleEnv netDown) dollarDisk ''<a href="/a/$&">next</a>''
      [''srv'', ''offline'', ''a'', ''index.html''] =
    Some ''<a href="/a/$&/index.html">next</a>'' \<and>
   fixLinks (exampleEnv netDown) dollarDisk ''<a href="/a/$&/index.html">next</a>''
      [''srv'', ''offline'', ''a'', ''index.html''] =
    Some ''<a href="/a/$&/index.html/index.html/index.html">next</a>''\<close>
  by code_simp

subsection \<open>Asset references: the attribute passes of \<^verbatim>\<open>rewriteHtml\<close>\<close>

text \<open>
  \<^verbatim>\<open>if (localPath)\<close> on the result of \<^verbatim>\<open>assetMap.get(url)\<close>: an entry counts when it
  is there and not the empty string.
\<close>

definition truthy :: "string option \<Rightarrow> string option" where
  "truthy x = (case x of None \<Rightarrow> None | Some lp \<Rightarrow> if lp = [] then None else Some lp)"

text \<open>
  The callbacks of the passes over \<^verbatim>\<open><link href>\<close>, \<^verbatim>\<open><script src>\<close> and \<^verbatim>\<open><img src>\<close>:
  \<^verbatim>\<open>
  (match, href) => {
    if (href.startsWith('#') || href.startsWith('mailto:') || href.startsWith('tel:')) {
      return match;
    }
    const localPath = assetMap.get(href);
    if (localPath) {
      const relativePath = path.relative(pageDir, path.join(OUT, localPath)).replace(/\\/g, '/');
      return match.replace(href, relativePath);
    }
    return match;
  }
  \<close>
  For scripts and images the prefixes skipped are \<^verbatim>\<open>data:\<close> and \<^verbatim>\<open>blob:\<close>.
\<close>

definition assetCallback ::
  "env \<Rightarrow> (string \<rightharpoonup> string) \<Rightarrow> string list \<Rightarrow> string list \<Rightarrow> string \<Rightarrow> string \<Rightarrow> string" where
  "assetCallback e assetMap pageDir skipped mt u =
     (if list_ex (startsWith u) skipped then mt
      else case truthy (assetMap u) of
             Some localPath \<Rightarrow>
               jsReplace mt u (slashes (pathRelative pageDir (pathJoin (OUT e) [localPath])))
           | None \<Rightarrow> mt)"

text \<open>\<^verbatim>\<open>s.split(/\s+/)\<close>: the pieces of \<open>s\<close> between the runs of white space.\<close>

function splitWs :: "string \<Rightarrow> string list" where
  "splitWs [] = [[]]"
| "splitWs (c # cs) =
     (if isJsSpace c then [] # splitWs (dropWhile isJsSpace cs)
      else (case splitWs cs of [] \<Rightarrow> [[c]] | y # ys \<Rightarrow> (c # y) # ys))"
  by pat_completeness auto
termination
  by (relation "measure length") (auto simp: length_dropWhile_le less_Suc_eq_le)

text \<open>
  The callback of the pass over \<^verbatim>\<open>srcset\<close>:
  \<^verbatim>\<open>
  (match, srcset) => {
    const newSrcset = srcset.split(',').map(part => {
      const [url, ...rest] = part.trim().split(/\s+/);
      if (url.startsWith('data:') || url.startsWith('blob:')) {
        return part.trim();
      }
      const localPath = assetMap.get(url);
      if (localPath) {
        const relativePath = path.relative(pageDir, path.join(OUT, localPath)).replace(/\\/g, '/');
        return [relativePath, ...rest].join(' ');
      }
      return part.trim();
    }).join(', ');
    return `srcset="${newSrcset}"`;
  }
  \<close>
\<close>

definition srcsetPart :: "env \<Rightarrow> (string \<rightharpoonup> string) \<Rightarrow> string list \<Rightarrow> string \<Rightarrow> string" where
  "srcsetPart e assetMap pageDir part =
     (case splitWs (trim part) of
        [] \<Rightarrow> trim part
      | u # rest \<Rightarrow>
          if startsWith u ''data:'' \<or> startsWith u ''blob:'' then trim part
          else case truthy (assetMap u) of
                 Some localPath \<Rightarrow>
                   joinWith '' ''
                     (slashes (pathRelative pageDir (pathJoin (OUT e) [localPath])) # rest)
               | None \<Rightarrow> trim part)"

definition srcsetCallback ::
  "env \<Rightarrow> (string \<rightharpoonup> string) \<Rightarrow> string list \<Rightarrow> string \<Rightarrow> string \<Rightarrow> string" where
  \<open>srcsetCallback e assetMap pageDir mt srcset =
     ''srcset="'' @
     joinWith '', '' (map (srcsetPart e assetMap pageDir) (splitChar CHR '','' srcset)) @
     ''"''\<close>

text \<open>The four passes, each on the output of the one before.\<close>

definition linkPass :: "env \<Rightarrow> (string \<rightharpoonup> string) \<Rightarrow> string list \<Rightarrow> string \<Rightarrow> string" where
  "linkPass e assetMap pageDir html =
     replaceAll (tagMatch ''<link'' ''href='')
       (assetCallback e assetMap pageDir [''#'', ''mailto:'', ''tel:'']) html"

definition scriptPass :: "env \<Rightarrow> (string \<rightharpoonup> string) \<Rightarrow> string list \<Rightarrow> string \<Rightarrow> string" where
  "scriptPass e assetMap pageDir html =
     replaceAll (tagMatch ''<script'' ''src='')
       (assetCallback e assetMap pageDir [''data:'', ''blob:'']) html"

definition imgPass :: "env \<Rightarrow> (string \<rightharpoonup> string) \<Rightarrow> string list \<Rightarrow> string \<Rightarrow> string" where
  "imgPass e assetMap pageDir html =
     replaceAll (tagMatch ''<img'' ''src='')
       (assetCallback e assetMap pageDir [''data:'', ''blob:'']) html"

definition srcsetPass :: "env \<Rightarrow> (string \<rightharpoonup> string) \<Rightarrow> string list \<Rightarrow> string \<Rightarrow> string" where
  "srcsetPass e assetMap pageDir html =
     replaceAll (attrMatch ''srcset='') (srcsetCallback e assetMap pageDir) html"

definition rewriteAttrs :: "env \<Rightarrow> (string \<rightharpoonup> string) \<Rightarrow> string list \<Rightarrow> string \<Rightarrow> string" where
  "rewriteAttrs e assetMap pageDir html =
     srcsetPass e assetMap pageDir
       (imgPass e assetMap pageDir
         (scriptPass e assetMap pageDir
           (linkPass e assetMap pageDir html)))"

text \<open>The URLs a pass hands to its callback, in order.\<close>

definition captures :: "matcher \<Rightarrow> string \<Rightarrow> string list" where
  "captures m s = concat (map (\<lambda>t. case t of Lit c \<Rightarrow> [] | Match mt g \<Rightarrow> [g]) (scan m s))"

subsection \<open>Properties of the scan\<close>

lemma scan_concat: "concat (map (render (\<lambda>mt g. mt)) (scan m s)) = s"
proof (induction m s rule: scan.induct)
  case (1 m)
  then show ?case by simp
next
  case (2 m c cs)
  show ?case
  proof (cases "m (c # cs)")
    case None
    with 2 show ?thesis by (simp add: render_def)
  next
    case (Some ng)
    obtain n g where ng: "ng = (n, g)" by (cases ng)
    show ?thesis
    proof (cases "n = 0")
      case True
      with 2 Some ng show ?thesis by (simp add: render_def)
    next
      case False
      with 2(3)[OF Some ng[symmetric]] Some ng show ?thesis
        by (simp add: render_def del: append_take_drop_id take_Cons' drop_Cons')
           (metis append_take_drop_id)
    qed
  qed
qed

lemma replaceAll_unchanged:
  assumes "\<And>mt g. Match mt g \<in> set (scan m s) \<Longrightarrow> f mt g = mt"
  shows "replaceAll m f s = s"
proof -
  have "map (render f) (scan m s) = map (render (\<lambda>mt g. mt)) (scan m s)"
    using assms by (intro map_cong refl) (auto simp: render_def split: token.splits)
  then show ?thesis unfolding replaceAll_def by (simp only: scan_concat)
qed

lemma captures_Match: "Match mt g \<in> set (scan m s) \<Longrightarrow> g \<in> set (captures m s)"
  by (force simp: captures_def)

lemma replaceAll_cong:
  assumes "\<And>mt g. Match mt g \<in> set (scan m s) \<Longrightarrow> f mt g = f' mt g"
  shows "replaceAll m f s = replaceAll m f' s"
proof -
  have "map (render f) (scan m s) = map (render f') (scan m s)"
    using assms by (intro map_cong refl) (auto simp: render_def split: token.splits)
  then show ?thesis unfolding replaceAll_def by (simp only:)
qed

lemma assetCallback_unmapped:
  "truthy (assetMap u) = None \<Longrightarrow> assetCallback e assetMap pageDir skipped mt u = mt"
  by (simp add: assetCallback_def)

text \<open>The first token of an entry of a \<^verbatim>\<open>srcset\<close>: its URL.\<close>

definition srcsetUrl :: "string \<Rightarrow> string" where
  "srcsetUrl part = (case splitWs (trim part) of [] \<Rightarrow> [] | u # rest \<Rightarrow> u)"

lemma srcsetPart_unmapped:
  "truthy (assetMap (srcsetUrl part)) = None \<Longrightarrow> srcsetPart e assetMap pageDir part = trim part"
  by (auto simp: srcsetPart_def srcsetUrl_def split: list.splits)

text \<open>
  What the pass over \<^verbatim>\<open>srcset\<close> writes for an attribute none of whose entries is
  mapped: the entries trimmed, joined by a comma and a space, in double quotes, under the
  name in lower case.
\<close>

definition srcsetPlain :: "string \<Rightarrow> string \<Rightarrow> string" where
  \<open>srcsetPlain mt srcset =
     ''srcset="'' @ joinWith '', '' (map trim (splitChar CHR '','' srcset)) @ ''"''\<close>

text \<open>
  The text of a token, the text of a piece of the scan, and what a pass with the callback
  \<open>f\<close> writes for the piece.
\<close>

definition tokenText :: "token \<Rightarrow> string" where
  "tokenText t = (case t of Lit c \<Rightarrow> [c] | Match mt g \<Rightarrow> mt)"

definition textOf :: "token list \<Rightarrow> string" where
  "textOf ts = concat (map tokenText ts)"

definition rewritten :: "(string \<Rightarrow> string \<Rightarrow> string) \<Rightarrow> token list \<Rightarrow> string" where
  "rewritten f ts = concat (map (render f) ts)"

text \<open>A map for the examples: an image, a stylesheet and a script are stored, nothing else.\<close>

definition mixMap :: "string \<rightharpoonup> string" where
  "mixMap = map_of [(''a.png'', ''_assets/a.png''), (''a.css'', ''_assets/a.css''),
                    (''a.js'', ''_assets/a.js'')]"

lemma textOf_scan: "textOf (scan m s) = s"
proof -
  have e: "tokenText = render (\<lambda>mt g. mt)"
    by (rule ext) (simp add: tokenText_def render_def)
  show ?thesis unfolding textOf_def e by (rule scan_concat)
qed

lemma textOf_append: "textOf (tsa @ tsb) = textOf tsa @ textOf tsb"
  by (simp add: textOf_def)

lemma rewritten_append: "rewritten f (tsa @ tsb) = rewritten f tsa @ rewritten f tsb"
  by (simp add: rewritten_def)

lemma replaceAll_at:
  assumes "scan m s = tsa @ Match mt g # tsb"
  shows "replaceAll m f s = rewritten f tsa @ f mt g @ rewritten f tsb"
    and "s = textOf tsa @ mt @ textOf tsb"
proof -
  show "replaceAll m f s = rewritten f tsa @ f mt g @ rewritten f tsb"
    unfolding replaceAll_def assms by (simp add: rewritten_def render_def)
  have "s = textOf (tsa @ Match mt g # tsb)"
    using textOf_scan[of m s] unfolding assms by simp
  then show "s = textOf tsa @ mt @ textOf tsb"
    by (simp add: textOf_def tokenText_def)
qed

lemma tagPass_at:
  assumes "scan m html = tsa @ Match mt u # tsb" "truthy (assetMap u) = None"
  shows "replaceAll m (assetCallback e assetMap pageDir skipped) html =
           rewritten (assetCallback e assetMap pageDir skipped) tsa @ mt @
           rewritten (assetCallback e assetMap pageDir skipped) tsb \<and>
         html = textOf tsa @ mt @ textOf tsb"
  using replaceAll_at[OF assms(1)]
    assetCallback_unmapped[where assetMap = assetMap and u = u, OF assms(2)]
  by simp

lemma srcsetPass_at:
  assumes "scan (attrMatch ''srcset='') html = tsa @ Match mt v # tsb"
    and "splitChar CHR '','' v = psa @ part # psb"
    and "truthy (assetMap (srcsetUrl part)) = None"
  shows \<open>srcsetPass e assetMap pageDir html =
           rewritten (srcsetCallback e assetMap pageDir) tsa @
           ''srcset="'' @
           joinWith '', '' (map (srcsetPart e assetMap pageDir) psa @ trim part #
                            map (srcsetPart e assetMap pageDir) psb) @
           ''"'' @
           rewritten (srcsetCallback e assetMap pageDir) tsb \<and>
         html = textOf tsa @ mt @ textOf tsb\<close>
proof -
  have \<open>srcsetCallback e assetMap pageDir mt v =
      ''srcset="'' @
      joinWith '', '' (map (srcsetPart e assetMap pageDir) psa @ trim part #
                       map (srcsetPart e assetMap pageDir) psb) @ ''"''\<close>
    unfolding srcsetCallback_def assms(2)
    using srcsetPart_unmapped[where assetMap = assetMap and part = part, OF assms(3)]
    by simp
  with replaceAll_at[OF assms(1)] show ?thesis unfolding srcsetPass_def by simp
qed

lemma tagPass_unmapped:
  assumes "\<forall>u \<in> set (captures m html). truthy (assetMap u) = None"
  shows "replaceAll m (assetCallback e assetMap pageDir skipped) html = html"
  using assms by (intro replaceAll_unchanged assetCallback_unmapped) (auto dest: captures_Match)

lemma srcsetPass_unmapped:
  assumes a: "\<forall>v \<in> set (captures (attrMatch ''srcset='') html).
        \<forall>part \<in> set (splitChar CHR '','' v). truthy (assetMap (srcsetUrl part)) = None"
  shows "srcsetPass e assetMap pageDir html = replaceAll (attrMatch ''srcset='') srcsetPlain html"
  unfolding srcsetPass_def
proof (rule replaceAll_cong)
  fix mt g
  assume "Match mt g \<in> set (scan (attrMatch ''srcset='') html)"
  then have "g \<in> set (captures (attrMatch ''srcset='') html)" by (rule captures_Match)
  with a have "\<forall>part \<in> set (splitChar CHR '','' g). truthy (assetMap (srcsetUrl part)) = None"
    by blast
  then have "map (srcsetPart e assetMap pageDir) (splitChar CHR '','' g) =
      map trim (splitChar CHR '','' g)"
    by (intro map_cong refl srcsetPart_unmapped) blast
  then show "srcsetCallback e assetMap pageDir mt g = srcsetPlain mt g"
    unfolding srcsetCallback_def srcsetPlain_def by (simp only:)
qed

text \<open>
  C3, as stated, fails. In the first document no URL is mapped, and the \<^verbatim>\<open>srcset\<close> of the
  image is not byte-identical in the output: its single quotes have become double quotes
  and a space stands behind the comma. In the second document the image \<^verbatim>\<open>a.png\<close> is
  mapped and \<^verbatim>\<open>/img/a.png\<close> is not; the pass over \<^verbatim>\<open><img src>\<close> rewrites the tag by
  \<^verbatim>\<open>match.replace(href, relativePath)\<close>, which replaces the first occurrence of
  \<^verbatim>\<open>a.png\<close> in the tag; it stands in the \<^verbatim>\<open>srcset\<close> entry without a mapping, and that
  entry is changed.
\<close>

theorem rewriteAttrs_counterexample:
  \<open>rewriteAttrs (exampleEnv netDown) Map.empty [''srv'', ''offline'', ''index'']
      ''<img src="a.png" srcset='a.png 1x,b.png 2x'>'' =
    ''<img src="a.png" srcset="a.png 1x, b.png 2x">'' \<and>
   mixMap ''/img/a.png'' = None \<and>
   rewriteAttrs (exampleEnv netDown) mixMap [''srv'', ''offline'', ''index'']
      ''<img srcset="/img/a.png 2x" src="a.png">'' =
    ''<img srcset="/img/../_assets/a.png 2x" src="a.png">''\<close>
  by code_simp

text \<open>
  C3, amended. Each pass takes the document as the pass before left it. In a pass over
  \<^verbatim>\<open><link href>\<close>, \<^verbatim>\<open><script src>\<close> or \<^verbatim>\<open><img src>\<close>, a tag whose captured URL has no local
  mapping is written back exactly as it was matched, whatever else in the document is
  mapped: if the scan of the document is the tokens \<open>tsa\<close>, the tag, and the tokens \<open>tsb\<close>,
  the output is what the pass writes for \<open>tsa\<close>, the tag as it stands, and what the pass
  writes for \<open>tsb\<close>. The pass over \<^verbatim>\<open>srcset\<close> writes every attribute anew: an entry whose
  URL has no mapping keeps its text (URL, descriptors and the white space between them),
  trimmed at both ends, at its place among the entries; the entries are joined by a comma
  and a space and put in double quotes under the name \<^verbatim>\<open>srcset\<close>. When none of the URLs
  a pass captures is mapped, the pass over tags returns the document byte for byte, and
  when no captured URL of any pass is mapped, the four passes together change the
  \<^verbatim>\<open>srcset\<close> attributes in this way and nothing else.
\<close>

theorem rewriteAttrs_unmapped:
  \<open>(scan (tagMatch ''<link'' ''href='') html = tsa @ Match mt u # tsb \<and>
    truthy (assetMap u) = None \<longrightarrow>
      linkPass e assetMap pageDir html =
        rewritten (assetCallback e assetMap pageDir [''#'', ''mailto:'', ''tel:'']) tsa @ mt @
        rewritten (assetCallback e assetMap pageDir [''#'', ''mailto:'', ''tel:'']) tsb \<and>
      html = textOf tsa @ mt @ textOf tsb) \<and>
   (scan (tagMatch ''<script'' ''src='') html = tsa @ Match mt u # tsb \<and>
    truthy (assetMap u) = None \<longrightarrow>
      scriptPass e assetMap pageDir html =
        rewritten (assetCallback e assetMap pageDir [''data:'', ''blob:'']) tsa @ mt @
        rewritten (assetCallback e assetMap pageDir [''data:'', ''blob:'']) tsb \<and>
      html = textOf tsa @ mt @ textOf tsb) \<and>
   (scan (tagMatch ''<img'' ''src='') html = tsa @ Match mt u # tsb \<and>
    truthy (assetMap u) = None \<longrightarrow>
      imgPass e assetMap pageDir html =
        rewritten (assetCallback e assetMap pageDir [''data:'', ''blob:'']) tsa @ mt @
        rewritten (assetCallback e assetMap pageDir [''data:'', ''blob:'']) tsb \<and>
      html = textOf tsa @ mt @ textOf tsb) \<and>
   (scan (attrMatch ''srcset='') html = tsa @ Match mt v # tsb \<and>
    splitChar CHR '','' v = psa @ part # psb \<and>
    truthy (assetMap (srcsetUrl part)) = None \<longrightarrow>
      srcsetPass e assetMap pageDir html =
        rewritten (srcsetCallback e assetMap pageDir) tsa @
        ''srcset="'' @
        joinWith '', '' (map (srcsetPart e assetMap pageDir) psa @ trim part #
                         map (srcsetPart e assetMap pageDir) psb) @
        ''"'' @
        rewritten (srcsetCallback e assetMap pageDir) tsb \<and>
      html = textOf tsa @ mt @ textOf tsb) \<and>
   ((\<forall>u \<in> set (captures (tagMatch ''<link'' ''href='') html). truthy (assetMap u) = None) \<longrightarrow>
      linkPass e assetMap pageDir html = html) \<and>
   ((\<forall>u \<in> set (captures (tagMatch ''<script'' ''src='') html). truthy (assetMap u) = None) \<longrightarrow>
      scriptPass e assetMap pageDir html = html) \<and>
   ((\<forall>u \<in> set (captures (tagMatch ''<img'' ''src='') html). truthy (assetMap u) = None) \<longrightarrow>
      imgPass e assetMap pageDir html = html) \<and>
   ((\<forall>v \<in> set (captures (attrMatch ''srcset='') html).
        \<forall>part \<in> set (splitChar CHR '','' v). truthy (assetMap (srcsetUrl part)) = None) \<longrightarrow>
      srcsetPass e assetMap pageDir html = replaceAll (attrMatch ''srcset='') srcsetPlain html) \<and>
   ((\<forall>u \<in> set (captures (tagMatch ''<link'' ''href='') html). truthy (assetMap u) = None) \<and>
    (\<forall>u \<in> set (captures (tagMatch ''<script'' ''src='') html). truthy (assetMap u) = None) \<and>
    (\<forall>u \<in> set (captures (tagMatch ''<img'' ''src='') html). truthy (assetMap u) = None) \<and>
    (\<forall>v \<in> set (captures (attrMatch ''srcset='') html).
        \<forall>part \<in> set (splitChar CHR '','' v). truthy (assetMap (srcsetUrl part)) = None) \<longrightarrow>
      rewriteAttrs e assetMap pageDir html =
        replaceAll (attrMatch ''srcset='') srcsetPlain html)\<close>
proof (intro conjI impI)
  assume "scan (tagMatch ''<link'' ''href='') html = tsa @ Match mt u # tsb \<and>
    truthy (assetMap u) = None"
  then show "linkPass e assetMap pageDir html =
        rewritten (assetCallback e assetMap pageDir [''#'', ''mailto:'', ''tel:'']) tsa @ mt @
        rewritten (assetCallback e assetMap pageDir [''#'', ''mailto:'', ''tel:'']) tsb"
    and "html = textOf tsa @ mt @ textOf tsb"
    unfolding linkPass_def using tagPass_at by blast+
next
  assume "scan (tagMatch ''<script'' ''src='') html = tsa @ Match mt u # tsb \<and>
    truthy (assetMap u) = None"
  then show "scriptPass e assetMap pageDir html =
        rewritten (assetCallback e assetMap pageDir [''data:'', ''blob:'']) tsa @ mt @
        rewritten (assetCallback e assetMap pageDir [''data:'', ''blob:'']) tsb"
    and "html = textOf tsa @ mt @ textOf tsb"
    unfolding scriptPass_def using tagPass_at by blast+
next
  assume "scan (tagMatch ''<img'' ''src='') html = tsa @ Match mt u # tsb \<and>
    truthy (assetMap u) = None"
  then show "imgPass e assetMap pageDir html =
        rewritten (assetCallback e assetMap pageDir [''data:'', ''blob:'']) tsa @ mt @
        rewritten (assetCallback e assetMap pageDir [''data:'', ''blob:'']) tsb"
    and "html = textOf tsa @ mt @ textOf tsb"
    unfolding imgPass_def using tagPass_at by blast+
next
  assume "scan (attrMatch ''srcset='') html = tsa @ Match mt v # tsb \<and>
    splitChar CHR '','' v = psa @ part # psb \<and>
    truthy (assetMap (srcsetUrl part)) = None"
  then show \<open>srcsetPass e assetMap pageDir html =
        rewritten (srcsetCallback e assetMap pageDir) tsa @
        ''srcset="'' @
        joinWith '', '' (map (srcsetPart e assetMap pageDir) psa @ trim part #
                         map (srcsetPart e assetMap pageDir) psb) @
        ''"'' @
        rewritten (srcsetCallback e assetMap pageDir) tsb\<close>
    and "html = textOf tsa @ mt @ textOf tsb"
    using srcsetPass_at by blast+
next
  assume "\<forall>u \<in> set (captures (tagMatch ''<link'' ''href='') html). truthy (assetMap u) = None"
  then show "linkPass e assetMap pageDir html = html"
    unfolding linkPass_def by (rule tagPass_unmapped)
next
  assume "\<forall>u \<in> set (captures (tagMatch ''<script'' ''src='') html). truthy (assetMap u) = None"
  then show "scriptPass e assetMap pageDir html = html"
    unfolding scriptPass_def by (rule tagPass_unmapped)
next
  assume "\<forall>u \<in> set (captures (tagMatch ''<img'' ''src='') html). truthy (assetMap u) = None"
  then show "imgPass e assetMap pageDir html = html"
    unfolding imgPass_def by (rule tagPass_unmapped)
next
  assume "\<forall>v \<in> set (captures (attrMatch ''srcset='') html).
        \<forall>part \<in> set (splitChar CHR '','' v). truthy (assetMap (srcsetUrl part)) = None"
  then show "srcsetPass e assetMap pageDir html =
      replaceAll (attrMatch ''srcset='') srcsetPlain html"
    by (rule srcsetPass_unmapped)
next
  assume a: "(\<forall>u \<in> set (captures (tagMatch ''<link'' ''href='') html). truthy (assetMap u) = None) \<and>
    (\<forall>u \<in> set (captures (tagMatch ''<script'' ''src='') html). truthy (assetMap u) = None) \<and>
    (\<forall>u \<in> set (captures (tagMatch ''<img'' ''src='') html). truthy (assetMap u) = None) \<and>
    (\<forall>v \<in> set (captures (attrMatch ''srcset='') html).
        \<forall>part \<in> set (splitChar CHR '','' v). truthy (assetMap (srcsetUrl part)) = None)"
  from a have 1: "linkPass e assetMap pageDir html = html"
    unfolding linkPass_def by (intro tagPass_unmapped) blast
  from a have 2: "scriptPass e assetMap pageDir html = html"
    unfolding scriptPass_def by (intro tagPass_unmapped) blast
  from a have 3: "imgPass e assetMap pageDir html = html"
    unfolding imgPass_def by (intro tagPass_unmapped) blast
  from a have 4: "srcsetPass e assetMap pageDir html =
      replaceAll (attrMatch ''srcset='') srcsetPlain html"
    by (intro srcsetPass_unmapped) blast
  show "rewriteAttrs e assetMap pageDir html =
      replaceAll (attrMatch ''srcset='') srcsetPlain html"
    unfolding rewriteAttrs_def 1 2 3 4 ..
qed

theorem rewriteAttrs_unmapped_witness:
  \<open>linkPass (exampleEnv netDown) mixMap [''srv'', ''offline'', ''index'']
      ''<link href="x.css"><link href="a.css">'' =
    ''<link href="x.css"><link href="../_assets/a.css">'' \<and>
   scriptPass (exampleEnv netDown) mixMap [''srv'', ''offline'', ''index'']
      ''<script src="x.js"></script><script src="a.js"></script>'' =
    ''<script src="x.js"></script><script src="../_assets/a.js"></script>'' \<and>
   imgPass (exampleEnv netDown) mixMap [''srv'', ''offline'', ''index'']
      ''<img src="b.png"><img src="a.png">'' =
    ''<img src="b.png"><img src="../_assets/a.png">'' \<and>
   srcsetPass (exampleEnv netDown) mixMap [''srv'', ''offline'', ''index'']
      ''<img srcset="a.png 1x,b.png  2x ">'' =
    ''<img srcset="../_assets/a.png 1x, b.png  2x">'' \<and>
   linkPass (exampleEnv netDown) Map.empty [''srv'', ''offline'', ''index'']
      ''<link rel="stylesheet" href="/css/main.css"><img src='a.png'>'' =
    ''<link rel="stylesheet" href="/css/main.css"><img src='a.png'>'' \<and>
   scriptPass (exampleEnv netDown) Map.empty [''srv'', ''offline'', ''index'']
      ''<link rel="stylesheet" href="/css/main.css"><img src='a.png'>'' =
    ''<link rel="stylesheet" href="/css/main.css"><img src='a.png'>'' \<and>
   imgPass (exampleEnv netDown) Map.empty [''srv'', ''offline'', ''index'']
      ''<link rel="stylesheet" href="/css/main.css"><img src='a.png'>'' =
    ''<link rel="stylesheet" href="/css/main.css"><img src='a.png'>'' \<and>
   srcsetPass (exampleEnv netDown) Map.empty [''srv'', ''offline'', ''index'']
      ''<link rel="stylesheet" href="/css/main.css"><img src='a.png'>'' =
    replaceAll (attrMatch ''srcset='') srcsetPlain
      ''<link rel="stylesheet" href="/css/main.css"><img src='a.png'>'' \<and>
   rewriteAttrs (exampleEnv netDown) Map.empty [''srv'', ''offline'', ''index'']
      ''<img src="a.png" srcset='a.png 1x,b.png 2x'>'' =
    ''<img src="a.png" srcset="a.png 1x, b.png 2x">''\<close>
proof -
  let ?e = "exampleEnv netDown"
  let ?d = "[''srv'', ''offline'', ''index'']"
  let ?lk = "assetCallback ?e mixMap ?d [''#'', ''mailto:'', ''tel:'']"
  let ?as = "assetCallback ?e mixMap ?d [''data:'', ''blob:'']"
  let ?h1 = \<open>''<link href="x.css"><link href="a.css">''\<close>
  let ?m1 = \<open>''<link href="x.css">''\<close>
  let ?t1 = \<open>[Match ''<link href="a.css">'' ''a.css'']\<close>
  have s1: "scan (tagMatch ''<link'' ''href='') ?h1 = [] @ Match ?m1 ''x.css'' # ?t1"
    by code_simp
  have u1: "truthy (mixMap ''x.css'') = None" by code_simp
  have r1: \<open>rewritten ?lk [] @ ?m1 @ rewritten ?lk ?t1 =
      ''<link href="x.css"><link href="../_assets/a.css">''\<close>
    by code_simp
  have A1: \<open>linkPass ?e mixMap ?d ?h1 = ''<link href="x.css"><link href="../_assets/a.css">''\<close>
    using rewriteAttrs_unmapped[where e = ?e and assetMap = mixMap and pageDir = ?d
        and html = ?h1 and tsa = "[]" and mt = ?m1 and u = "''x.css''" and tsb = ?t1,
        THEN conjunct1, rule_format, OF conjI[OF s1 u1], THEN conjunct1]
    unfolding r1 .
  let ?h2 = \<open>''<script src="x.js"></script><script src="a.js"></script>''\<close>
  let ?m2 = \<open>''<script src="x.js">''\<close>
  let ?t2 = \<open>map Lit ''</script>'' @ Match ''<script src="a.js">'' ''a.js'' # map Lit ''</script>''\<close>
  have s2: "scan (tagMatch ''<script'' ''src='') ?h2 = [] @ Match ?m2 ''x.js'' # ?t2"
    by code_simp
  have u2: "truthy (mixMap ''x.js'') = None" by code_simp
  have r2: \<open>rewritten ?as [] @ ?m2 @ rewritten ?as ?t2 =
      ''<script src="x.js"></script><script src="../_assets/a.js"></script>''\<close>
    by code_simp
  have A2: \<open>scriptPass ?e mixMap ?d ?h2 =
      ''<script src="x.js"></script><script src="../_assets/a.js"></script>''\<close>
    using rewriteAttrs_unmapped[where e = ?e and assetMap = mixMap and pageDir = ?d
        and html = ?h2 and tsa = "[]" and mt = ?m2 and u = "''x.js''" and tsb = ?t2,
        THEN conjunct2, THEN conjunct1, rule_format, OF conjI[OF s2 u2], THEN conjunct1]
    unfolding r2 .
  let ?h3 = \<open>''<img src="b.png"><img src="a.png">''\<close>
  let ?m3 = \<open>''<img src="b.png">''\<close>
  let ?t3 = \<open>[Match ''<img src="a.png">'' ''a.png'']\<close>
  have s3: "scan (tagMatch ''<img'' ''src='') ?h3 = [] @ Match ?m3 ''b.png'' # ?t3"
    by code_simp
  have u3: "truthy (mixMap ''b.png'') = None" by code_simp
  have r3: \<open>rewritten ?as [] @ ?m3 @ rewritten ?as ?t3 =
      ''<img src="b.png"><img src="../_assets/a.png">''\<close>
    by code_simp
  have A3: \<open>imgPass ?e mixMap ?d ?h3 = ''<img src="b.png"><img src="../_assets/a.png">''\<close>
    using rewriteAttrs_unmapped[where e = ?e and assetMap = mixMap and pageDir = ?d
        and html = ?h3 and tsa = "[]" and mt = ?m3 and u = "''b.png''" and tsb = ?t3,
        THEN conjunct2, THEN conjunct2, THEN conjunct1, rule_format, OF conjI[OF s3 u3],
        THEN conjunct1]
    unfolding r3 .
  let ?h4 = \<open>''<img srcset="a.png 1x,b.png  2x ">''\<close>
  let ?m4 = \<open>''srcset="a.png 1x,b.png  2x "''\<close>
  let ?v4 = "''a.png 1x,b.png  2x ''"
  let ?sc = "srcsetCallback ?e mixMap ?d"
  have s4: "scan (attrMatch ''srcset='') ?h4 = map Lit ''<img '' @ Match ?m4 ?v4 # [Lit CHR ''>'']"
    by code_simp
  have p4: "splitChar CHR '','' ?v4 = [''a.png 1x''] @ ''b.png  2x '' # []"
    by code_simp
  have u4: "truthy (mixMap (srcsetUrl ''b.png  2x '')) = None" by code_simp
  have r4: \<open>rewritten ?sc (map Lit ''<img '') @ ''srcset="'' @
      joinWith '', '' (map (srcsetPart ?e mixMap ?d) [''a.png 1x''] @ trim ''b.png  2x '' #
                       map (srcsetPart ?e mixMap ?d) []) @ ''"'' @
      rewritten ?sc [Lit CHR ''>''] = ''<img srcset="../_assets/a.png 1x, b.png  2x">''\<close>
    by code_simp
  have A4: \<open>srcsetPass ?e mixMap ?d ?h4 = ''<img srcset="../_assets/a.png 1x, b.png  2x">''\<close>
    using rewriteAttrs_unmapped[where e = ?e and assetMap = mixMap and pageDir = ?d
        and html = ?h4 and tsa = "map Lit ''<img ''" and mt = ?m4 and v = ?v4
        and tsb = "[Lit CHR ''>'']" and psa = "[''a.png 1x'']" and part = "''b.png  2x ''"
        and psb = "[]",
        THEN conjunct2, THEN conjunct2, THEN conjunct2, THEN conjunct1, rule_format,
        OF conjI[OF s4 conjI[OF p4 u4]], THEN conjunct1]
    unfolding r4 .
  let ?h5 = \<open>''<link rel="stylesheet" href="/css/main.css"><img src='a.png'>''\<close>
  note t5 = rewriteAttrs_unmapped[where e = ?e and assetMap = Map.empty and pageDir = ?d
        and html = ?h5, THEN conjunct2, THEN conjunct2, THEN conjunct2, THEN conjunct2]
  have n: "truthy (Map.empty x) = None" for x :: string
    by (simp add: truthy_def)
  have A5: "linkPass ?e Map.empty ?d ?h5 = ?h5"
    using t5[THEN conjunct1] n by blast
  have A6: "scriptPass ?e Map.empty ?d ?h5 = ?h5"
    using t5[THEN conjunct2, THEN conjunct1] n by blast
  have A7: "imgPass ?e Map.empty ?d ?h5 = ?h5"
    using t5[THEN conjunct2, THEN conjunct2, THEN conjunct1] n by blast
  have A8: "srcsetPass ?e Map.empty ?d ?h5 = replaceAll (attrMatch ''srcset='') srcsetPlain ?h5"
    using t5[THEN conjunct2, THEN conjunct2, THEN conjunct2, THEN conjunct1] n by blast
  let ?h9 = \<open>''<img src="a.png" srcset='a.png 1x,b.png 2x'>''\<close>
  have r9: \<open>replaceAll (attrMatch ''srcset='') srcsetPlain ?h9 =
      ''<img src="a.png" srcset="a.png 1x, b.png 2x">''\<close>
    by code_simp
  have "rewriteAttrs ?e Map.empty ?d ?h9 = replaceAll (attrMatch ''srcset='') srcsetPlain ?h9"
    using rewriteAttrs_unmapped[where e = ?e and assetMap = Map.empty and pageDir = ?d
        and html = ?h9, THEN conjunct2, THEN conjunct2, THEN conjunct2, THEN conjunct2,
        THEN conjunct2, THEN conjunct2, THEN conjunct2, THEN conjunct2] n
    by blast
  then have A9: \<open>rewriteAttrs ?e Map.empty ?d ?h9 =
      ''<img src="a.png" srcset="a.png 1x, b.png 2x">''\<close>
    unfolding r9 .
  from A1 A2 A3 A4 A5 A6 A7 A8 A9 show ?thesis by (intro conjI)
qed

subsection \<open>Stylesheets: the \<^verbatim>\<open>url()\<close> rewrite of \<^verbatim>\<open>rewriteHtml\<close>\<close>

text \<open>
  For every stylesheet downloaded for the page, \<^verbatim>\<open>rewriteHtml\<close> runs
  \<^verbatim>\<open>
  updatedCss = updatedCss.replace(/url\(["']?([^"')]+)["']?\)/gi, (match, assetUrl) => {
    const trimmedUrl = assetUrl.trim();
    if (trimmedUrl.startsWith('data:') || trimmedUrl.startsWith('#')) {
      return match;
    }
    const localAssetPath = assetMap.get(trimmedUrl) || assetMap.get(new URL(trimmedUrl, cssUrl).href);
    if (localAssetPath) {
      const cssDir = path.dirname(path.join(OUT, cssLocalPath));
      const assetDir = path.dirname(path.join(OUT, localAssetPath));
      const relativePath = path.relative(cssDir, path.join(OUT, localAssetPath)).replace(/\\/g, '/');
      return `url("${relativePath}")`;
    }
    return match;
  });
  \<close>
  \<open>cssLookup\<close> is the line of \<^verbatim>\<open>localAssetPath\<close>: \<open>None\<close> where \<^verbatim>\<open>new URL\<close> throws
  (nothing catches it), \<open>Some None\<close> where no entry counts, and the local path otherwise.
\<close>

definition cssLookup ::
  "env \<Rightarrow> (string \<rightharpoonup> string) \<Rightarrow> string \<Rightarrow> string \<Rightarrow> string option option" where
  "cssLookup e assetMap cssUrl trimmedUrl =
     (case truthy (assetMap trimmedUrl) of
        Some localAssetPath \<Rightarrow> Some (Some localAssetPath)
      | None \<Rightarrow>
          (case newURL e trimmedUrl (Some cssUrl) of
             None \<Rightarrow> None
           | Some u \<Rightarrow> Some (truthy (assetMap (url_href u)))))"

text \<open>The reference written for a local path: relative to the directory of the stylesheet.\<close>

definition cssRelative :: "env \<Rightarrow> string \<Rightarrow> string \<Rightarrow> string" where
  "cssRelative e cssLocalPath localAssetPath =
     slashes (pathRelative (butlast (pathJoin (OUT e) [cssLocalPath]))
                (pathJoin (OUT e) [localAssetPath]))"

definition cssCallback ::
  "env \<Rightarrow> (string \<rightharpoonup> string) \<Rightarrow> string \<Rightarrow> string \<Rightarrow> string \<Rightarrow> string \<Rightarrow> string option" where
  \<open>cssCallback e assetMap cssUrl cssLocalPath mt assetUrl =
     (if startsWith (trim assetUrl) ''data:'' \<or> startsWith (trim assetUrl) ''#'' then Some mt
      else case cssLookup e assetMap cssUrl (trim assetUrl) of
             None \<Rightarrow> None
           | Some None \<Rightarrow> Some mt
           | Some (Some localAssetPath) \<Rightarrow>
               Some (''url("'' @ cssRelative e cssLocalPath localAssetPath @ ''")''))\<close>

definition rewriteCss ::
  "env \<Rightarrow> (string \<rightharpoonup> string) \<Rightarrow> string \<Rightarrow> string \<Rightarrow> string \<Rightarrow> string option" where
  "rewriteCss e assetMap cssUrl cssLocalPath css =
     replaceAllOpt urlMatch (cssCallback e assetMap cssUrl cssLocalPath) css"

text \<open>
  A resolved map in which the reference written for one entry is the key of another: the
  image of the stylesheet, and an entry for the name under which the image was stored.
\<close>

definition chainMap :: "string \<rightharpoonup> string" where
  "chainMap =
     map_of [(''../img/hero.png'', ''_assets/asset__img_hero_png.png''),
             (''asset__img_hero_png.png'', ''_assets/asset__css_asset__img_hero_png_png.png'')]"

text \<open>
  \<open>stableRef r\<close>: the reference \<open>r\<close> has no quote and no closing parenthesis, and the callback,
  called on \<^verbatim>\<open>url("r")\<close>, returns it as it stands (or \<open>r\<close> is empty, and \<^verbatim>\<open>url("")\<close> is
  no match of the expression).
\<close>

definition stableRef ::
  "env \<Rightarrow> (string \<rightharpoonup> string) \<Rightarrow> string \<Rightarrow> string \<Rightarrow> string \<Rightarrow> bool" where
  \<open>stableRef e assetMap cssUrl cssLocalPath r =
     (list_all (\<lambda>c. \<not> isCssDelim c) r \<and>
      (r = [] \<or>
       cssCallback e assetMap cssUrl cssLocalPath (''url("'' @ r @ ''")'') r =
         Some (''url("'' @ r @ ''")'')))\<close>

text \<open>
  For the examples: \<open>exampleRelURL\<close> reads, besides the inputs of \<open>exampleURL\<close>, a file name
  (letters, digits, \<^verbatim>\<open>_\<close>, \<^verbatim>\<open>-\<close> and \<^verbatim>\<open>.\<close>, not starting with a dot) as a reference relative to
  the directory of the base, as the platform's parser does.
\<close>

definition exampleRelURL :: "string \<Rightarrow> string option \<Rightarrow> url option" where
  "exampleRelURL u base =
     (case exampleURL u base of
        Some a \<Rightarrow> Some a
      | None \<Rightarrow>
          (case base of
             None \<Rightarrow> None
           | Some b \<Rightarrow>
               (case exampleAbs b of
                  None \<Rightarrow> None
                | Some bu \<Rightarrow>
                    if u \<noteq> [] \<and> list_all (\<lambda>c. isAlnum c \<or> c \<in> set ''_-.'') u \<and>
                       \<not> startsWith u ''.''
                    then exampleAbs (url_origin bu @
                           rev (dropWhile (\<lambda>c. c \<noteq> CHR ''/'') (rev (url_pathname bu))) @ u)
                    else None)))"

definition cssEnv :: env where
  "cssEnv = (exampleEnv netDown)\<lparr>newURL := exampleRelURL\<rparr>"

definition heroMap :: "string \<rightharpoonup> string" where
  "heroMap = map_of [(''../img/hero.png'', ''_assets/asset__img_hero_png.png'')]"

subsection \<open>Running a result through the same replacement again\<close>

lemma replaceAllOpt_Nil: "replaceAllOpt m f [] = Some []"
  by (simp add: replaceAllOpt_def)

lemma replaceAllOpt_None:
  "m (c # cs) = None \<Longrightarrow>
     replaceAllOpt m f (c # cs) = map_option ((#) c) (replaceAllOpt m f cs)"
  by (simp add: replaceAllOpt_def renderOpt_def option.map_comp comp_def split: option.splits)

lemma replaceAllOpt_Some:
  assumes "m s = Some (n, g)" "0 < n" "s \<noteq> []"
  shows "replaceAllOpt m f s =
           (case f (take n s) g of
              None \<Rightarrow> None
            | Some w \<Rightarrow> map_option ((@) w) (replaceAllOpt m f (drop n s)))"
proof -
  from assms(3) obtain c cs where s: "s = c # cs" by (cases s) auto
  have "scan m (c # cs) = Match (take n (c # cs)) g # scan m (drop n (c # cs))"
    using assms(1,2) unfolding s by (simp del: take_Cons' drop_Cons')
  then show ?thesis
    unfolding s replaceAllOpt_def
    by (simp add: renderOpt_def option.map_comp comp_def split: option.splits
             del: take_Cons' drop_Cons' scan.simps)
qed

lemma scan_inert_step:
  "m (c # cs) = None \<Longrightarrow> scan m (c # cs) = Lit c # scan m cs"
  by simp

lemma those_append:
  "those (xs @ ys) =
     (case those xs of None \<Rightarrow> None | Some a \<Rightarrow> map_option ((@) a) (those ys))"
proof (induction xs)
  case Nil
  show ?case by (cases "those ys") simp_all
next
  case (Cons x xs)
  show ?case
  proof (cases x)
    case None
    then show ?thesis by simp
  next
    case (Some a)
    show ?thesis
      by (cases "those xs"; cases "those ys") (simp_all add: Some Cons.IH)
  qed
qed

lemma replaceAllOpt_inert:
  assumes "scan m (w @ t) = map Lit w @ scan m t"
  shows "replaceAllOpt m f (w @ t) = map_option ((@) w) (replaceAllOpt m f t)"
proof -
  have a: "those (map (renderOpt f) (map Lit w)) = Some (map (\<lambda>c. [c]) w)"
    by (induction w) (simp_all add: renderOpt_def)
  have b: "concat (map (\<lambda>c. [c]) w) = w"
    by (induction w) simp_all
  show ?thesis
    unfolding replaceAllOpt_def assms map_append those_append a
    by (cases "those (map (renderOpt f) (scan m t))") (simp_all add: b)
qed

text \<open>
  A result of the replacement is a fixed point of it when the expression is local (a match
  does not depend on what follows it), every text the callback writes is either the match
  itself, or a match on which the callback returns it again, or a text in which no match
  starts, and no match appears at a position that had none.
\<close>

lemma replaceAllOpt_fixed:
  fixes m :: matcher and f :: "string \<Rightarrow> string \<Rightarrow> string option"
  assumes pos: "\<And>s n g. m s = Some (n, g) \<Longrightarrow> 0 < n \<and> n \<le> length s"
    and loc: "\<And>s n g t. m s = Some (n, g) \<Longrightarrow> m (take n s @ t) = Some (n, g)"
    and out: "\<And>s n g w. m s = Some (n, g) \<Longrightarrow> f (take n s) g = Some w \<Longrightarrow>
        w = take n s \<or>
        (\<exists>g'. (\<forall>t. m (w @ t) = Some (length w, g')) \<and> f w g' = Some w \<and> w \<noteq> []) \<or>
        (\<forall>t. scan m (w @ t) = map Lit w @ scan m t)"
    and nonew: "\<And>c cs s1. m (c # cs) = None \<Longrightarrow> replaceAllOpt m f cs = Some s1 \<Longrightarrow>
        m (c # s1) = None"
    and run: "replaceAllOpt m f s = Some s1"
  shows "replaceAllOpt m f s1 = Some s1"
  using run
proof (induction s arbitrary: s1 rule: length_induct)
  case (1 s)
  show ?case
  proof (cases s)
    case Nil
    with 1(2) show ?thesis by (simp add: replaceAllOpt_Nil)
  next
    case (Cons c cs)
    show ?thesis
    proof (cases "m s")
      case None
      with 1(2) Cons obtain s1' where s1: "s1 = c # s1'" and r: "replaceAllOpt m f cs = Some s1'"
        by (auto simp: replaceAllOpt_None)
      have ih: "replaceAllOpt m f s1' = Some s1'"
        using 1(1)[rule_format, of cs s1'] r Cons by simp
      have "m (c # s1') = None"
        using None r unfolding Cons by (rule nonew)
      then show ?thesis
        unfolding s1 by (simp add: replaceAllOpt_None ih)
    next
      case (Some ng)
      obtain n g where ng: "ng = (n, g)" by (cases ng)
      note mt = Some[unfolded ng]
      from pos[OF mt] have n: "0 < n" "n \<le> length s" by auto
      have eq: "replaceAllOpt m f s =
          (case f (take n s) g of None \<Rightarrow> None
           | Some w \<Rightarrow> map_option ((@) w) (replaceAllOpt m f (drop n s)))"
        using replaceAllOpt_Some[of m s n g f] mt n(1) Cons by simp
      from 1(2) eq obtain w where w: "f (take n s) g = Some w"
        and e2: "map_option ((@) w) (replaceAllOpt m f (drop n s)) = Some s1"
        by (cases "f (take n s) g") auto
      from e2 obtain s1' where r: "replaceAllOpt m f (drop n s) = Some s1'" and s1: "s1 = w @ s1'"
        by (cases "replaceAllOpt m f (drop n s)") auto
      have ih: "replaceAllOpt m f s1' = Some s1'"
        using 1(1)[rule_format, of "drop n s" s1'] r n Cons by simp
      from out[OF mt w] consider
          (same) "w = take n s"
        | (good) g' where "\<forall>t. m (w @ t) = Some (length w, g')" "f w g' = Some w" "w \<noteq> []"
        | (inert) "\<forall>t. scan m (w @ t) = map Lit w @ scan m t"
        by blast
      then show ?thesis
      proof cases
        case same
        have a: "m (w @ s1') = Some (n, g)"
          unfolding same using mt by (rule loc)
        have l: "length w = n" using same n by simp
        have ne: "w @ s1' \<noteq> []" using l n by auto
        show ?thesis
          unfolding s1 using replaceAllOpt_Some[of m "w @ s1'" n g f] a n(1) ne w ih l same
          by simp
      next
        case good
        have a: "m (w @ s1') = Some (length w, g')" using good(1) by blast
        have ne: "w @ s1' \<noteq> []" using good(3) by simp
        have lp: "0 < length w" using good(3) by simp
        show ?thesis
          unfolding s1 using replaceAllOpt_Some[of m "w @ s1'" "length w" g' f] a lp ne good(2) ih
          by simp
      next
        case inert
        then have "scan m (w @ s1') = map Lit w @ scan m s1'" by blast
        from replaceAllOpt_inert[of m w s1' f] this ih show ?thesis
          unfolding s1 by simp
      qed
    qed
  qed
qed

subsection \<open>The expression for \<^verbatim>\<open>url()\<close>\<close>

text \<open>
  The part of the expression behind \<^verbatim>\<open>url(\<close>, read on the text that follows:
  \<open>closesNext z\<close> says that after the code units up to the next delimiter comes a quote,
  if any, and then \<^verbatim>\<open>)\<close>.
\<close>

definition closesNext :: "string \<Rightarrow> bool" where
  "closesNext z = startsWith (skipQuote (dropWhile (\<lambda>c. \<not> isCssDelim c) z)) '')''"

definition urlTail :: "string \<Rightarrow> bool" where
  "urlTail t =
     (takeWhile (\<lambda>c. \<not> isCssDelim c) (skipQuote t) \<noteq> [] \<and> closesNext (skipQuote t))"

definition optQuote :: "string \<Rightarrow> bool" where
  "optQuote q = (q = [] \<or> (\<exists>c. q = [c] \<and> isQuote c))"

lemma urlMatch_iff: "urlMatch s \<noteq> None \<longleftrightarrow> ciPrefix ''url('' s \<and> urlTail (drop 4 s)"
  by (simp add: urlMatch_def urlTail_def closesNext_def Let_def)

lemma urlMatch_not_ci: "\<not> ciPrefix ''url('' s \<Longrightarrow> urlMatch s = None"
  by (simp add: urlMatch_def)

lemma ciPrefix_url_head: "ciPrefix ''url('' (c # cs) \<Longrightarrow> asciiLower c = CHR ''u''"
  by (simp add: ciPrefix_Cons)

lemma urlMatch_head: "asciiLower c \<noteq> CHR ''u'' \<Longrightarrow> urlMatch (c # cs) = None"
  by (rule urlMatch_not_ci) (simp add: ciPrefix_Cons)

lemma delim_cases: "isCssDelim c \<Longrightarrow> c = CHR 0x22 \<or> c = CHR 0x27 \<or> c = CHR '')''"
  by (auto simp: isCssDelim_def isQuote_def)

lemma delim_lower: "isCssDelim c \<Longrightarrow> asciiLower c = c"
proof -
  have "asciiLower CHR 0x22 = CHR 0x22" "asciiLower CHR 0x27 = CHR 0x27"
    "asciiLower CHR '')'' = CHR '')''"
    by (simp_all add: asciiLower_def)
  then show "isCssDelim c \<Longrightarrow> asciiLower c = c"
    using delim_cases[of c] by auto
qed

lemma delim_not_u: "isCssDelim c \<Longrightarrow> asciiLower c \<noteq> CHR ''u''"
  using delim_lower[of c] delim_cases[of c] by auto

lemma lower_url_not_delim: "asciiLower c \<in> set ''url('' \<Longrightarrow> \<not> isCssDelim c"
  using delim_lower[of c] delim_cases[of c] by auto

lemma url_prefix_not_delim:
  assumes "map asciiLower U = ''url(''"
  shows "\<forall>c \<in> set U. \<not> isCssDelim c"
proof
  fix c assume "c \<in> set U"
  then have "asciiLower c \<in> set (map asciiLower U)" by simp
  then show "\<not> isCssDelim c" unfolding assms by (rule lower_url_not_delim)
qed

lemma skipQuote_simps:
  "skipQuote [] = []"
  "isQuote c \<Longrightarrow> skipQuote (c # cs) = cs"
  "\<not> isQuote c \<Longrightarrow> skipQuote (c # cs) = c # cs"
  by (simp_all add: skipQuote_def)

lemma skipQuote_optQuote:
  assumes "optQuote q" "t \<noteq> []" "\<not> isQuote (hd t)"
  shows "skipQuote (q @ t) = t"
proof -
  from assms(2) obtain a as where t: "t = a # as" by (cases t) auto
  with assms show ?thesis by (auto simp: optQuote_def skipQuote_simps)
qed

lemma length_skipQuote: "length (skipQuote s) \<le> length s"
  by (cases s) (simp_all add: skipQuote_def)

lemma urlMatch_SomeD:
  assumes "urlMatch s = Some (n, g)"
  shows "ciPrefix ''url('' s"
    and "g = takeWhile (\<lambda>c. \<not> isCssDelim c) (skipQuote (drop 4 s))"
    and "g \<noteq> []"
    and "startsWith (skipQuote (dropWhile (\<lambda>c. \<not> isCssDelim c) (skipQuote (drop 4 s)))) '')''"
    and "n = length s -
           length (skipQuote (dropWhile (\<lambda>c. \<not> isCssDelim c) (skipQuote (drop 4 s)))) + 1"
proof -
  let ?g = "takeWhile (\<lambda>c. \<not> isCssDelim c) (skipQuote (drop 4 s))"
  let ?r = "skipQuote (dropWhile (\<lambda>c. \<not> isCssDelim c) (skipQuote (drop 4 s)))"
  show ci: "ciPrefix ''url('' s"
  proof (rule ccontr)
    assume "\<not> ciPrefix ''url('' s"
    with assms show False by (simp add: urlMatch_def)
  qed
  have c: "?g \<noteq> [] \<and> startsWith ?r '')''"
  proof (rule ccontr)
    assume "\<not> (?g \<noteq> [] \<and> startsWith ?r '')'')"
    with assms ci show False by (simp add: urlMatch_def Let_def)
  qed
  with ci have "urlMatch s = Some (length s - length ?r + 1, ?g)"
    by (simp add: urlMatch_def Let_def)
  with assms have "Some (n, g) = Some (length s - length ?r + 1, ?g)" by (simp only:)
  then have "(n, g) = (length s - length ?r + 1, ?g)" by (rule option.inject[THEN iffD1])
  then have e: "n = length s - length ?r + 1 \<and> g = ?g" by (rule prod.inject[THEN iffD1])
  from e show eg: "g = ?g" by (rule conjunct2)
  from e show "n = length s - length ?r + 1" by (rule conjunct1)
  from c show "startsWith ?r '')''" by (rule conjunct2)
  from c have "?g \<noteq> []" by (rule conjunct1)
  then show "g \<noteq> []" unfolding eg .
qed

lemma startsWith_nonempty:
  assumes st: "startsWith r '')''"
  shows "r \<noteq> []"
  using st by (cases r) (simp_all add: startsWith_simps)

lemma pos_sub_succ: "0 < b \<Longrightarrow> b \<le> a \<Longrightarrow> 0 < a - b + 1 \<and> a - b + 1 \<le> a" for a b :: nat
  by arith

lemma urlMatch_pos:
  assumes "urlMatch s = Some (n, g)"
  shows "0 < n \<and> n \<le> length s"
proof -
  let ?r = "skipQuote (dropWhile (\<lambda>c. \<not> isCssDelim c) (skipQuote (drop 4 s)))"
  have n: "n = length s - length ?r + 1"
    using assms by (rule urlMatch_SomeD(5))
  have st: "startsWith ?r '')''"
    using assms by (rule urlMatch_SomeD(4))
  from st have r: "?r \<noteq> []" by (rule startsWith_nonempty)
  have "length ?r \<le> length (dropWhile (\<lambda>c. \<not> isCssDelim c) (skipQuote (drop 4 s)))"
    by (rule length_skipQuote)
  also have "\<dots> \<le> length (skipQuote (drop 4 s))" by (rule length_dropWhile_le)
  also have "\<dots> \<le> length (drop 4 s)" by (rule length_skipQuote)
  also have "\<dots> \<le> length s" by simp
  finally have le: "length ?r \<le> length s" .
  from r have pos: "0 < length ?r" by simp
  from pos le have "0 < length s - length ?r + 1 \<and> length s - length ?r + 1 \<le> length s"
    by (rule pos_sub_succ)
  then show ?thesis unfolding n .
qed

lemma urlMatch_intro:
  assumes "map asciiLower U = ''url(''" "optQuote q1" "optQuote q2"
    and "g \<noteq> []" "\<forall>c \<in> set g. \<not> isCssDelim c"
  shows "urlMatch (U @ q1 @ g @ q2 @ '')'' @ t) =
           Some (length U + length q1 + length g + length q2 + 1, g)"
proof -
  have lU: "length U = 4"
  proof -
    have "length (map asciiLower U) = length ''url(''" by (simp only: assms(1))
    then show ?thesis by simp
  qed
  have ci: "ciPrefix ''url('' (U @ q1 @ g @ q2 @ '')'' @ t)"
    using assms(1) by (rule ciPrefix_append_variant)
  from assms(4,5) have hg: "\<not> isQuote (hd g)"
    by (cases g) (auto simp: isCssDelim_def)
  let ?z = "CHR '')'' # t"
  have s1: "skipQuote (q1 @ g @ q2 @ ?z) = g @ q2 @ ?z"
    using assms(2) hg assms(4) by (intro skipQuote_optQuote) auto
  obtain d ds where dq: "q2 @ ?z = d # ds" "isCssDelim d"
    using assms(3) by (auto simp: optQuote_def isCssDelim_def)
  have tw: "takeWhile (\<lambda>c. \<not> isCssDelim c) (g @ q2 @ ?z) = g"
    unfolding dq(1) using assms(5) dq(2) by (simp add: takeWhile_append2)
  have dw: "dropWhile (\<lambda>c. \<not> isCssDelim c) (g @ q2 @ ?z) = q2 @ ?z"
    unfolding dq(1) using assms(5) dq(2) by (simp add: dropWhile_append2)
  have s2: "skipQuote (q2 @ ?z) = ?z"
    using assms(3) by (intro skipQuote_optQuote) (auto simp: isQuote_def)
  have d4: "drop 4 (U @ q1 @ g @ q2 @ ?z) = q1 @ g @ q2 @ ?z"
    using lU by simp
  have len: "length (U @ q1 @ g @ q2 @ ?z) - length ?z + 1 =
      length U + length q1 + length g + length q2 + 1"
    by simp
  have "urlMatch (U @ q1 @ g @ q2 @ ?z) =
      Some (length (U @ q1 @ g @ q2 @ ?z) - length ?z + 1, g)"
    unfolding urlMatch_def Let_def d4 s1 tw dw s2 using ci assms(4)
    by (simp add: startsWith_simps)
  then show ?thesis unfolding len by simp
qed

lemma skipQuote_split: "\<exists>q. optQuote q \<and> s = q @ skipQuote s"
  by (cases s) (auto simp: skipQuote_def optQuote_def)

lemma urlMatch_elim:
  assumes "urlMatch s = Some (n, g)"
  obtains U q1 q2 rest where "s = U @ q1 @ g @ q2 @ '')'' @ rest"
    "map asciiLower U = ''url(''" "optQuote q1" "optQuote q2"
    "g \<noteq> []" "\<forall>c \<in> set g. \<not> isCssDelim c"
    "n = length U + length q1 + length g + length q2 + 1"
proof -
  let ?t = "skipQuote (drop 4 s)"
  let ?d = "dropWhile (\<lambda>c. \<not> isCssDelim c) ?t"
  have ci: "ciPrefix ''url('' s"
    using assms by (rule urlMatch_SomeD(1))
  have g: "g = takeWhile (\<lambda>c. \<not> isCssDelim c) ?t"
    using assms by (rule urlMatch_SomeD(2))
  have gne: "g \<noteq> []"
    using assms by (rule urlMatch_SomeD(3))
  have st: "startsWith (skipQuote ?d) '')''"
    using assms by (rule urlMatch_SomeD(4))
  have l4: "length ''url('' = 4" by simp
  from ci have U: "map asciiLower (take 4 s) = ''url(''" unfolding ciPrefix_def l4 .
  obtain q1 where q1: "optQuote q1" "drop 4 s = q1 @ ?t"
    using skipQuote_split[of "drop 4 s"] by blast
  obtain q2 where q2: "optQuote q2" "?d = q2 @ skipQuote ?d"
    using skipQuote_split[of ?d] by blast
  from st obtain rest where rest: "skipQuote ?d = '')'' @ rest"
    by (cases "skipQuote ?d") (auto simp: startsWith_simps)
  have "s = take 4 s @ drop 4 s" by simp
  also have "drop 4 s = q1 @ ?t" by (rule q1(2))
  also have "?t = g @ ?d" unfolding g by simp
  also have "?d = q2 @ '')'' @ rest" using q2(2) rest by simp
  finally have s: "s = take 4 s @ q1 @ g @ q2 @ '')'' @ rest" .
  have gd: "\<forall>c \<in> set g. \<not> isCssDelim c"
    unfolding g by (auto dest: set_takeWhileD)
  from urlMatch_intro[OF U q1(1) q2(1) gne gd, of rest] assms s
  have "n = length (take 4 s) + length q1 + length g + length q2 + 1" by simp
  with s U q1(1) q2(1) gne gd show ?thesis by (rule that)
qed

lemma urlMatch_loc:
  assumes "urlMatch s = Some (n, g)"
  shows "urlMatch (take n s @ t) = Some (n, g)"
proof -
  from assms obtain U q1 q2 rest where s: "s = U @ q1 @ g @ q2 @ '')'' @ rest"
    and f: "map asciiLower U = ''url(''" "optQuote q1" "optQuote q2"
      "g \<noteq> []" "\<forall>c \<in> set g. \<not> isCssDelim c"
    and n: "n = length U + length q1 + length g + length q2 + 1"
    by (rule urlMatch_elim)
  have "take n s = U @ q1 @ g @ q2 @ '')''"
    unfolding n by (subst s) simp
  with urlMatch_intro[OF f, of t] n show ?thesis by simp
qed

subsection \<open>What a second run of the \<^verbatim>\<open>url()\<close> replacement reads\<close>

text \<open>
  \<open>written f\<close>: the callback returns the match itself or a reference of the form
  \<^verbatim>\<open>url("r")\<close> in which \<open>r\<close> has no quote and no closing parenthesis.
\<close>

definition written :: "(string \<Rightarrow> string \<Rightarrow> string option) \<Rightarrow> bool" where
  \<open>written f =
     (\<forall>mt g w. f mt g = Some w \<longrightarrow>
        w = mt \<or> (\<exists>r. w = ''url("'' @ r @ ''")'' \<and> (\<forall>c \<in> set r. \<not> isCssDelim c)))\<close>

lemma writtenD:
  assumes "written f" "f mt g = Some w"
  obtains (same) "w = mt"
  | (ref) r where \<open>w = ''url("'' @ r @ ''")''\<close> "\<forall>c \<in> set r. \<not> isCssDelim c"
  using assms unfolding written_def by blast

lemma lower_u: "asciiLower CHR ''u'' = CHR ''u''"
  by (simp add: asciiLower_def)

lemma lower_u_not_delim: "asciiLower u = CHR ''u'' \<Longrightarrow> \<not> isCssDelim u"
  using delim_not_u[of u] by blast

lemma quote_delim: "isQuote c \<Longrightarrow> isCssDelim c"
  by (simp add: isCssDelim_def)

lemma delim_not_quote: "isCssDelim c \<Longrightarrow> \<not> isQuote c \<Longrightarrow> c = CHR '')''"
  by (simp add: isCssDelim_def)

lemma paren_delim: "isCssDelim CHR '')''"
  by (simp add: isCssDelim_def)

lemma paren_not_quote: "\<not> isQuote CHR '')''"
  by (simp add: isQuote_def)

lemma dquote: "isQuote CHR 0x22"
  by (simp add: isQuote_def)

lemma R_cases:
  assumes "replaceAllOpt urlMatch f x = Some y"
  obtains (nil) "x = []" "y = []"
  | (lit) c cs y' where "x = c # cs" "urlMatch (c # cs) = None" "y = c # y'"
      "replaceAllOpt urlMatch f cs = Some y'"
  | (mat) n g w y' where "urlMatch x = Some (n, g)" "f (take n x) g = Some w" "y = w @ y'"
      "replaceAllOpt urlMatch f (drop n x) = Some y'"
proof (cases x)
  case Nil
  with assms have "y = []" by (simp add: replaceAllOpt_Nil)
  with Nil show ?thesis by (rule nil)
next
  case (Cons c cs)
  show ?thesis
  proof (cases "urlMatch (c # cs)")
    case None
    have "replaceAllOpt urlMatch f (c # cs) = map_option ((#) c) (replaceAllOpt urlMatch f cs)"
      using None by (rule replaceAllOpt_None[of urlMatch c cs f])
    with assms have "map_option ((#) c) (replaceAllOpt urlMatch f cs) = Some y"
      unfolding Cons by (simp only:)
    then obtain y' where y': "replaceAllOpt urlMatch f cs = Some y'" "y = c # y'"
      by (cases "replaceAllOpt urlMatch f cs") simp_all
    from Cons None y'(2) y'(1) show ?thesis by (rule lit)
  next
    case (Some p)
    obtain n g where p: "p = (n, g)" by (cases p)
    from Some have m: "urlMatch x = Some (n, g)" unfolding Cons p .
    from urlMatch_pos[OF m] have pos: "0 < n" by (rule conjunct1)
    from Cons have ne: "x \<noteq> []" by simp
    have "replaceAllOpt urlMatch f x =
        (case f (take n x) g of
           None \<Rightarrow> None
         | Some w \<Rightarrow> map_option ((@) w) (replaceAllOpt urlMatch f (drop n x)))"
      using m pos ne by (rule replaceAllOpt_Some[of urlMatch x n g f])
    with assms have e: "(case f (take n x) g of
           None \<Rightarrow> None
         | Some w \<Rightarrow> map_option ((@) w) (replaceAllOpt urlMatch f (drop n x))) = Some y"
      by (simp only:)
    show ?thesis
    proof (cases "f (take n x) g")
      case None
      with e show ?thesis by simp
    next
      case fw: (Some w)
      show ?thesis
      proof (cases "replaceAllOpt urlMatch f (drop n x)")
        case None
        with e fw show ?thesis by simp
      next
        case (Some y')
        with e fw have "y = w @ y'" by simp
        with m fw show ?thesis using Some by (rule mat)
      qed
    qed
  qed
qed

lemma match_head:
  assumes "urlMatch x = Some (n, g)"
  obtains u xs where "x = u # xs" "asciiLower u = CHR ''u''"
proof (cases x)
  case Nil
  from urlMatch_SomeD(1)[OF assms] show ?thesis unfolding Nil by simp
next
  case (Cons u xs)
  from urlMatch_SomeD(1)[OF assms] have "asciiLower u = CHR ''u''"
    unfolding Cons by (rule ciPrefix_url_head)
  with Cons show ?thesis by (rule that)
qed

lemma written_head:
  assumes F: "written f" and m: "urlMatch x = Some (n, g)" and fw: "f (take n x) g = Some w"
  obtains u ws where "w = u # ws" "asciiLower u = CHR ''u''"
proof -
  from F fw show ?thesis
  proof (cases rule: writtenD)
    case same
    from m obtain u xs where x: "x = u # xs" and u: "asciiLower u = CHR ''u''"
      by (rule match_head)
    from urlMatch_pos[OF m] have "0 < n" by (rule conjunct1)
    then obtain k where n: "n = Suc k" by (cases n) simp_all
    have "w = u # take k xs" unfolding same x n by simp
    then show ?thesis using u by (rule that)
  next
    case (ref r)
    have \<open>w = CHR ''u'' # (''rl("'' @ r @ ''")'')\<close> unfolding ref(1) by simp
    then show ?thesis using lower_u by (rule that)
  qed
qed

lemma R_head:
  assumes F: "written f" and R: "replaceAllOpt urlMatch f x = Some (a # z)"
    and a: "asciiLower a \<noteq> CHR ''u''"
  obtains xs where "x = a # xs" "replaceAllOpt urlMatch f xs = Some z"
proof -
  from R show ?thesis
  proof (cases rule: R_cases)
    case nil
    then show ?thesis by simp
  next
    case (lit c cs y')
    from lit(3) have "c = a" "y' = z" by simp_all
    with lit(1,4) show ?thesis by (intro that) simp_all
  next
    case (mat n g w y')
    from F mat(1,2) obtain u ws where w: "w = u # ws" and u: "asciiLower u = CHR ''u''"
      by (rule written_head)
    from mat(3) have "a = u" unfolding w by simp
    with a u show ?thesis by simp
  qed
qed

lemma R_skipQuote:
  assumes F: "written f" and R: "replaceAllOpt urlMatch f x = Some y"
  shows "replaceAllOpt urlMatch f (skipQuote x) = Some (skipQuote y)"
proof -
  from R show ?thesis
  proof (cases rule: R_cases)
    case nil
    then show ?thesis by (simp add: skipQuote_simps replaceAllOpt_Nil)
  next
    case (lit c cs y')
    show ?thesis
    proof (cases "isQuote c")
      case True
      then show ?thesis unfolding lit(1,3) using lit(4) by (simp add: skipQuote_simps)
    next
      case False
      then have "skipQuote x = x" "skipQuote y = y"
        unfolding lit(1,3) by (simp_all add: skipQuote_simps)
      with R show ?thesis by simp
    qed
  next
    case (mat n g w y')
    from mat(1) obtain u xs where x: "x = u # xs" and u: "asciiLower u = CHR ''u''"
      by (rule match_head)
    from F mat(1,2) obtain v ws where w: "w = v # ws" and v: "asciiLower v = CHR ''u''"
      by (rule written_head)
    from u have "\<not> isQuote u" using lower_u_not_delim quote_delim by blast
    then have sx: "skipQuote x = x" unfolding x by (simp add: skipQuote_simps)
    from v have "\<not> isQuote v" using lower_u_not_delim quote_delim by blast
    then have sy: "skipQuote y = y" unfolding mat(3) w by (simp add: skipQuote_simps)
    from R show ?thesis unfolding sx sy .
  qed
qed

lemma R_takeWhile:
  assumes F: "written f" and R: "replaceAllOpt urlMatch f x = Some y"
    and y: "takeWhile (\<lambda>c. \<not> isCssDelim c) y \<noteq> []"
  shows "takeWhile (\<lambda>c. \<not> isCssDelim c) x \<noteq> []"
proof -
  from R show ?thesis
  proof (cases rule: R_cases)
    case nil
    with y show ?thesis by simp
  next
    case (lit c cs y')
    from y have "\<not> isCssDelim c" unfolding lit(3) by (cases "isCssDelim c") simp_all
    then show ?thesis unfolding lit(1) by simp
  next
    case (mat n g w y')
    from mat(1) obtain u xs where x: "x = u # xs" and u: "asciiLower u = CHR ''u''"
      by (rule match_head)
    from u have "\<not> isCssDelim u" by (rule lower_u_not_delim)
    then show ?thesis unfolding x by simp
  qed
qed

lemma closesNext_Nil: "\<not> closesNext []"
  by (simp add: closesNext_def skipQuote_simps startsWith_simps)

lemma closesNext_nondelim:
  assumes "\<forall>c \<in> set a. \<not> isCssDelim c"
  shows "closesNext (a @ z) = closesNext z"
proof -
  have "dropWhile (\<lambda>c. \<not> isCssDelim c) (a @ z) = dropWhile (\<lambda>c. \<not> isCssDelim c) z"
    using assms by (intro dropWhile_append2) simp
  then show ?thesis unfolding closesNext_def by (simp only:)
qed

lemma closesNext_Cons_nondelim: "\<not> isCssDelim c \<Longrightarrow> closesNext (c # z) = closesNext z"
  using closesNext_nondelim[of "[c]" z] by simp

lemma closesNext_quote: "isQuote q \<Longrightarrow> closesNext (q # z) = startsWith z '')''"
  by (simp add: closesNext_def quote_delim skipQuote_simps)

lemma closesNext_paren: "closesNext (CHR '')'' # z)"
  by (simp add: closesNext_def paren_delim paren_not_quote skipQuote_simps startsWith_simps)

lemma startsWith_nondelim:
  assumes "g \<noteq> []" "\<forall>c \<in> set g. \<not> isCssDelim c"
  shows "\<not> startsWith (g @ z) '')''"
proof -
  from assms(1) obtain a as where g: "g = a # as" by (cases g) auto
  with assms(2) have "\<not> isCssDelim a" by simp
  with paren_delim have "a \<noteq> CHR '')''" by blast
  then show ?thesis unfolding g by (simp add: startsWith_simps)
qed

lemma closesNext_optQuote_paren:
  assumes "optQuote q"
  shows "closesNext (q @ '')'' @ z)"
proof (cases q)
  case Nil
  then show ?thesis using closesNext_paren[of z] by simp
next
  case (Cons c cs)
  with assms have "isQuote c" "cs = []" by (auto simp: optQuote_def)
  then show ?thesis unfolding Cons by (simp add: closesNext_quote startsWith_simps)
qed

lemma closesNext_match:
  assumes U: "map asciiLower U = ''url(''" and q1: "optQuote q1" and q2: "optQuote q2"
    and g: "g \<noteq> []" "\<forall>c \<in> set g. \<not> isCssDelim c"
  shows "closesNext (U @ q1 @ g @ q2 @ '')'' @ z) \<longleftrightarrow> q1 = []"
proof -
  have "closesNext (U @ q1 @ g @ q2 @ '')'' @ z) = closesNext (q1 @ g @ q2 @ '')'' @ z)"
    using url_prefix_not_delim[OF U] by (rule closesNext_nondelim)
  also have "\<dots> \<longleftrightarrow> q1 = []"
  proof (cases q1)
    case Nil
    have "closesNext (g @ q2 @ '')'' @ z) = closesNext (q2 @ '')'' @ z)"
      using g(2) by (rule closesNext_nondelim)
    with closesNext_optQuote_paren[OF q2, of z] show ?thesis unfolding Nil by simp
  next
    case (Cons c cs)
    with q1 have c: "isQuote c" "cs = []" by (auto simp: optQuote_def)
    have "\<not> startsWith (g @ q2 @ '')'' @ z) '')''"
      using g by (rule startsWith_nondelim)
    then show ?thesis unfolding Cons c(2) using c(1) by (simp add: closesNext_quote)
  qed
  finally show ?thesis .
qed

lemma closesNext_written:
  assumes "\<forall>c \<in> set r. \<not> isCssDelim c"
  shows \<open>\<not> closesNext (''url("'' @ r @ ''")'' @ z)\<close>
proof -
  have u: "\<forall>c \<in> set ''url(''. \<not> isCssDelim c"
    using url_prefix_not_delim[of "''url(''"] by (simp add: asciiLower_def)
  have \<open>closesNext (''url('' @ (CHR 0x22 # r @ ''")'' @ z)) = closesNext (CHR 0x22 # r @ ''")'' @ z)\<close>
    using u by (rule closesNext_nondelim)
  also have \<open>\<dots> = startsWith (r @ ''")'' @ z) '')''\<close>
    using dquote by (rule closesNext_quote)
  also have "\<dots> = False"
  proof (cases "r = []")
    case True
    then show ?thesis by (simp add: startsWith_simps)
  next
    case False
    then show ?thesis using assms startsWith_nondelim[of r] by simp
  qed
  finally show ?thesis by simp
qed

lemma R_closesNext:
  assumes F: "written f"
  shows "replaceAllOpt urlMatch f x = Some y \<Longrightarrow> closesNext y \<Longrightarrow> closesNext x"
proof (induction "length x" arbitrary: x y rule: less_induct)
  case less
  note R = less.prems(1) and cy = less.prems(2)
  from R show ?case
  proof (cases rule: R_cases)
    case nil
    with cy show ?thesis by simp
  next
    case (lit c cs y')
    show ?thesis
    proof (cases "isCssDelim c")
      case False
      from cy have "closesNext y'" unfolding lit(3) closesNext_Cons_nondelim[OF False] .
      moreover have "length cs < length x" unfolding lit(1) by simp
      ultimately have "closesNext cs" using lit(4) less.hyps by blast
      then show ?thesis unfolding lit(1) closesNext_Cons_nondelim[OF False] .
    next
      case True
      show ?thesis
      proof (cases "isQuote c")
        case q: True
        from cy have "startsWith y' '')''" unfolding lit(3) closesNext_quote[OF q] .
        then obtain z where y': "y' = CHR '')'' # z"
          by (cases y') (simp_all add: startsWith_simps)
        have "asciiLower CHR '')'' \<noteq> CHR ''u''" by (simp add: asciiLower_def)
        with F lit(4)[unfolded y'] obtain xs where "cs = CHR '')'' # xs"
          by (rule R_head)
        then show ?thesis unfolding lit(1) closesNext_quote[OF q] by (simp add: startsWith_simps)
      next
        case False
        with True have "c = CHR '')''" by (rule delim_not_quote)
        then show ?thesis unfolding lit(1) by (simp add: closesNext_paren)
      qed
    qed
  next
    case (mat n g w y')
    from mat(1) obtain U q1 q2 rest where x: "x = U @ q1 @ g @ q2 @ '')'' @ rest"
      and p: "map asciiLower U = ''url(''" "optQuote q1" "optQuote q2"
        "g \<noteq> []" "\<forall>c \<in> set g. \<not> isCssDelim c"
      and n: "n = length U + length q1 + length g + length q2 + 1"
      by (rule urlMatch_elim)
    have tk: "take n x = U @ q1 @ g @ q2 @ '')''"
      unfolding n by (subst x) simp
    from F mat(2) show ?thesis
    proof (cases rule: writtenD)
      case same
      from cy have "closesNext (U @ q1 @ g @ q2 @ '')'' @ y')"
        unfolding mat(3) same tk by simp
      then have "q1 = []" unfolding closesNext_match[OF p] .
      then have "closesNext (U @ q1 @ g @ q2 @ '')'' @ rest)" unfolding closesNext_match[OF p] .
      then show ?thesis by (subst x)
    next
      case (ref r)
      from closesNext_written[OF ref(2), of y'] cy show ?thesis unfolding mat(3) ref(1) by simp
    qed
  qed
qed

lemma R_urlTail:
  assumes F: "written f" and R: "replaceAllOpt urlMatch f x = Some y" and y: "urlTail y"
  shows "urlTail x"
proof -
  from F R have S: "replaceAllOpt urlMatch f (skipQuote x) = Some (skipQuote y)"
    by (rule R_skipQuote)
  from y have a: "takeWhile (\<lambda>c. \<not> isCssDelim c) (skipQuote y) \<noteq> []"
    and b: "closesNext (skipQuote y)"
    unfolding urlTail_def by simp_all
  from F S a have "takeWhile (\<lambda>c. \<not> isCssDelim c) (skipQuote x) \<noteq> []" by (rule R_takeWhile)
  moreover from S b have "closesNext (skipQuote x)" by (rule R_closesNext[OF F])
  ultimately show ?thesis unfolding urlTail_def by simp
qed

lemma ciPrefix_urlD:
  assumes "ciPrefix ''url('' s"
  obtains a b c d t where "s = a # b # c # d # t" "asciiLower a = CHR ''u''"
    "asciiLower b = CHR ''r''" "asciiLower c = CHR ''l''" "asciiLower d = CHR ''(''"
proof -
  from assms obtain a s1 where s: "s = a # s1" by (cases s) simp_all
  from assms have a: "asciiLower a = CHR ''u''" and 1: "ciPrefix ''rl('' s1"
    unfolding s by (simp_all add: ciPrefix_Cons)
  from 1 obtain b s2 where s1: "s1 = b # s2" by (cases s1) simp_all
  from 1 have b: "asciiLower b = CHR ''r''" and 2: "ciPrefix ''l('' s2"
    unfolding s1 by (simp_all add: ciPrefix_Cons)
  from 2 obtain c s3 where s2: "s2 = c # s3" by (cases s2) simp_all
  from 2 have c: "asciiLower c = CHR ''l''" and 3: "ciPrefix ''('' s3"
    unfolding s2 by (simp_all add: ciPrefix_Cons)
  from 3 obtain d t where s3: "s3 = d # t" by (cases s3) simp_all
  from 3 have d: "asciiLower d = CHR ''(''"
    unfolding s3 by (simp_all add: ciPrefix_Cons)
  have "s = a # b # c # d # t" unfolding s s1 s2 s3 ..
  then show ?thesis using a b c d by (rule that)
qed

lemma ciPrefix_urlI:
  assumes "asciiLower a = CHR ''u''" "asciiLower b = CHR ''r''" "asciiLower c = CHR ''l''"
    "asciiLower d = CHR ''(''"
  shows "ciPrefix ''url('' (a # b # c # d # t)"
  using assms by (simp add: ciPrefix_Cons ciPrefix_def)

lemma urlMatch_nonew:
  assumes F: "written f" and none: "urlMatch (c # cs) = None"
    and R: "replaceAllOpt urlMatch f cs = Some s1"
  shows "urlMatch (c # s1) = None"
proof (rule ccontr)
  assume "urlMatch (c # s1) \<noteq> None"
  then have ci: "ciPrefix ''url('' (c # s1)" and tl: "urlTail (drop 4 (c # s1))"
    unfolding urlMatch_iff by simp_all
  from ci obtain a b1 b2 b3 t where s: "c # s1 = a # b1 # b2 # b3 # t"
    and l: "asciiLower a = CHR ''u''" "asciiLower b1 = CHR ''r''"
      "asciiLower b2 = CHR ''l''" "asciiLower b3 = CHR ''(''"
    by (rule ciPrefix_urlD)
  from s have ca: "c = a" and s1: "s1 = b1 # b2 # b3 # t" by simp_all
  from l(2) have n1: "asciiLower b1 \<noteq> CHR ''u''" by simp
  from l(3) have n2: "asciiLower b2 \<noteq> CHR ''u''" by simp
  from l(4) have n3: "asciiLower b3 \<noteq> CHR ''u''" by simp
  from F R[unfolded s1] n1 obtain x1 where x1: "cs = b1 # x1"
    and R1: "replaceAllOpt urlMatch f x1 = Some (b2 # b3 # t)" by (rule R_head)
  from F R1 n2 obtain x2 where x2: "x1 = b2 # x2"
    and R2: "replaceAllOpt urlMatch f x2 = Some (b3 # t)" by (rule R_head)
  from F R2 n3 obtain x3 where x3: "x2 = b3 # x3"
    and R3: "replaceAllOpt urlMatch f x3 = Some t" by (rule R_head)
  from tl have "urlTail t" unfolding s by simp
  with F R3 have "urlTail x3" by (rule R_urlTail)
  then have "urlTail (drop 4 (c # cs))" unfolding x1 x2 x3 by simp
  moreover have "ciPrefix ''url('' (c # cs)"
    unfolding x1 x2 x3 ca using l by (rule ciPrefix_urlI)
  ultimately have "urlMatch (c # cs) \<noteq> None" unfolding urlMatch_iff by simp
  with none show False by simp
qed

lemma urlMatch_written:
  assumes "r \<noteq> []" "\<forall>c \<in> set r. \<not> isCssDelim c"
  shows \<open>urlMatch ((''url("'' @ r @ ''")'') @ t) = Some (length (''url("'' @ r @ ''")''), r)\<close>
proof -
  have U: "map asciiLower ''url('' = ''url(''" by (simp add: asciiLower_def)
  have q: "optQuote [CHR 0x22]" unfolding optQuote_def using dquote by simp
  from urlMatch_intro[OF U q q assms, of t] show ?thesis by simp
qed

lemma urlMatch_written_empty: \<open>urlMatch (''url("")'' @ t) = None\<close>
proof -
  have \<open>skipQuote (drop 4 (''url("")'' @ t)) = CHR 0x22 # CHR '')'' # t\<close>
    using dquote by (simp add: skipQuote_simps)
  moreover have "takeWhile (\<lambda>c. \<not> isCssDelim c) (CHR 0x22 # CHR '')'' # t) = []"
    using quote_delim[OF dquote] by simp
  ultimately show ?thesis by (simp add: urlMatch_def Let_def)
qed

lemma scan_written_empty:
  \<open>scan urlMatch (''url("")'' @ t) = map Lit ''url("")'' @ scan urlMatch t\<close>
proof -
  have l: "asciiLower CHR ''r'' \<noteq> CHR ''u''" "asciiLower CHR ''l'' \<noteq> CHR ''u''"
    "asciiLower CHR ''('' \<noteq> CHR ''u''" "asciiLower CHR 0x22 \<noteq> CHR ''u''"
    "asciiLower CHR '')'' \<noteq> CHR ''u''"
    by (simp_all add: asciiLower_def)
  have 0: \<open>scan urlMatch (''url("")'' @ t) = Lit CHR ''u'' # scan urlMatch (''rl("")'' @ t)\<close>
    using urlMatch_written_empty[of t] by (simp del: scan.simps add: scan_inert_step)
  have 1: \<open>scan urlMatch (''rl("")'' @ t) = Lit CHR ''r'' # scan urlMatch (''l("")'' @ t)\<close>
    using urlMatch_head[OF l(1)] by (simp del: scan.simps add: scan_inert_step)
  have 2: \<open>scan urlMatch (''l("")'' @ t) = Lit CHR ''l'' # scan urlMatch (''("")'' @ t)\<close>
    using urlMatch_head[OF l(2)] by (simp del: scan.simps add: scan_inert_step)
  have 3: \<open>scan urlMatch (''("")'' @ t) = Lit CHR ''('' # scan urlMatch (''"")'' @ t)\<close>
    using urlMatch_head[OF l(3)] by (simp del: scan.simps add: scan_inert_step)
  have 4: \<open>scan urlMatch (''"")'' @ t) = Lit CHR 0x22 # scan urlMatch (''")'' @ t)\<close>
    using urlMatch_head[OF l(4)] by (simp del: scan.simps add: scan_inert_step)
  have 5: \<open>scan urlMatch (''")'' @ t) = Lit CHR 0x22 # scan urlMatch ('')'' @ t)\<close>
    using urlMatch_head[OF l(4)] by (simp del: scan.simps add: scan_inert_step)
  have 6: \<open>scan urlMatch ('')'' @ t) = Lit CHR '')'' # scan urlMatch t\<close>
    using urlMatch_head[OF l(5)] by (simp del: scan.simps add: scan_inert_step)
  show ?thesis unfolding 0 1 2 3 4 5 6 by simp
qed

text \<open>
  A run of the replacement whose callback writes only references that it leaves alone returns
  a text that the same run returns unchanged: the references it wrote are matched again and
  kept, and no new match appears around them.
\<close>

lemma urlReplace_fixed:
  assumes refs: "\<And>mt g w. f mt g = Some w \<Longrightarrow>
      w = mt \<or> (\<exists>r. w = ''url('' @ [CHR 0x22] @ r @ [CHR 0x22] @ '')'' \<and>
                    (\<forall>c \<in> set r. \<not> isCssDelim c) \<and>
                    (r = [] \<or> f w r = Some w))"
    and run: "replaceAllOpt urlMatch f s = Some s1"
  shows "replaceAllOpt urlMatch f s1 = Some s1"
proof -
  have F: "written f"
    unfolding written_def
  proof (intro allI impI)
    fix mt g w assume "f mt g = Some w"
    from refs[OF this]
    show \<open>w = mt \<or> (\<exists>r. w = ''url("'' @ r @ ''")'' \<and> (\<forall>c \<in> set r. \<not> isCssDelim c))\<close>
      by auto
  qed
  show ?thesis
  proof (rule replaceAllOpt_fixed[of urlMatch f s s1])
    fix x n g assume "urlMatch x = Some (n, g)"
    then show "0 < n \<and> n \<le> length x" by (rule urlMatch_pos)
  next
    fix x n g t assume "urlMatch x = Some (n, g)"
    then show "urlMatch (take n x @ t) = Some (n, g)" by (rule urlMatch_loc)
  next
    fix x n g w assume "urlMatch x = Some (n, g)" and fw: "f (take n x) g = Some w"
    from refs[OF fw]
    show "w = take n x \<or>
        (\<exists>g'. (\<forall>t. urlMatch (w @ t) = Some (length w, g')) \<and> f w g' = Some w \<and> w \<noteq> []) \<or>
        (\<forall>t. scan urlMatch (w @ t) = map Lit w @ scan urlMatch t)"
    proof (elim disjE exE conjE)
      assume "w = take n x"
      then show ?thesis by (rule disjI1)
    next
      fix r assume w: "w = ''url('' @ [CHR 0x22] @ r @ [CHR 0x22] @ '')''"
        and nd: "\<forall>c \<in> set r. \<not> isCssDelim c" and "r = []"
      then have \<open>w = ''url("")''\<close> by simp
      then have "\<forall>t. scan urlMatch (w @ t) = map Lit w @ scan urlMatch t"
        using scan_written_empty by (simp only:) simp
      then show ?thesis by (intro disjI2)
    next
      fix r assume w: "w = ''url('' @ [CHR 0x22] @ r @ [CHR 0x22] @ '')''"
        and nd: "\<forall>c \<in> set r. \<not> isCssDelim c" and st: "f w r = Some w"
      show ?thesis
      proof (cases "r = []")
        case True
        with w have \<open>w = ''url("")''\<close> by simp
        then have "\<forall>t. scan urlMatch (w @ t) = map Lit w @ scan urlMatch t"
          using scan_written_empty by (simp only:) simp
        then show ?thesis by (intro disjI2)
      next
        case False
        have w': \<open>w = ''url("'' @ r @ ''")''\<close> unfolding w by simp
        have "\<forall>t. urlMatch (w @ t) = Some (length w, r)"
          unfolding w' using urlMatch_written[OF False nd] by blast
        moreover have "w \<noteq> []" unfolding w by simp
        ultimately show ?thesis using st by blast
      qed
    qed
  next
    fix c cs y assume "urlMatch (c # cs) = None" "replaceAllOpt urlMatch f cs = Some y"
    with F show "urlMatch (c # y) = None" by (rule urlMatch_nonew)
  next
    show "replaceAllOpt urlMatch f s = Some s1" by (rule run)
  qed
qed

subsection \<open>A second run of the stylesheet rewrite\<close>

lemma truthy_SomeD: "truthy x = Some lp \<Longrightarrow> x = Some lp \<and> lp \<noteq> []"
  by (cases x) (simp_all add: truthy_def split: if_splits)

lemma cssLookup_SomeD:
  assumes "cssLookup e assetMap cssUrl t = Some (Some lp)"
  obtains k where "assetMap k = Some lp" "lp \<noteq> []"
proof (cases "truthy (assetMap t)")
  case (Some a)
  with assms have "a = lp" by (simp add: cssLookup_def)
  with Some have "truthy (assetMap t) = Some lp" by simp
  then have "assetMap t = Some lp \<and> lp \<noteq> []" by (rule truthy_SomeD)
  then show ?thesis using that by blast
next
  case None
  show ?thesis
  proof (cases "newURL e t (Some cssUrl)")
    case n: None
    with assms None show ?thesis by (simp add: cssLookup_def)
  next
    case (Some u)
    with assms None have "truthy (assetMap (url_href u)) = Some lp" by (simp add: cssLookup_def)
    then have "assetMap (url_href u) = Some lp \<and> lp \<noteq> []" by (rule truthy_SomeD)
    then show ?thesis using that by blast
  qed
qed

lemma cssCallback_cases:
  assumes "cssCallback e assetMap cssUrl cssLocalPath mt g = Some w"
  obtains (same) "w = mt"
  | (ref) k lp where "assetMap k = Some lp" "lp \<noteq> []"
      \<open>w = ''url("'' @ cssRelative e cssLocalPath lp @ ''")''\<close>
proof (cases "startsWith (trim g) ''data:'' \<or> startsWith (trim g) ''#''")
  case True
  with assms have "w = mt" by (simp add: cssCallback_def)
  then show ?thesis by (rule same)
next
  case False
  show ?thesis
  proof (cases "cssLookup e assetMap cssUrl (trim g)")
    case None
    with assms False show ?thesis by (simp add: cssCallback_def)
  next
    case (Some r)
    show ?thesis
    proof (cases r)
      case None
      with assms False Some have "w = mt" by (simp add: cssCallback_def)
      then show ?thesis by (rule same)
    next
      case lp: (Some lp)
      from Some obtain k where k: "assetMap k = Some lp" "lp \<noteq> []"
        unfolding lp by (rule cssLookup_SomeD)
      from assms False Some lp
      have \<open>w = ''url("'' @ cssRelative e cssLocalPath lp @ ''")''\<close>
        by (simp add: cssCallback_def)
      with k show ?thesis by (rule ref)
    qed
  qed
qed

text \<open>
  C4, as the specification has it: for every stylesheet text, resolved map and stylesheet
  path, the rewrite applied to its own output changes nothing. The rewrite is not idempotent
  for every map: with the stylesheet \<^verbatim>\<open>https://www.fruitpunch.ai/css/main.css\<close> stored as
  \<^verbatim>\<open>_assets/asset__css_main_css.css\<close> and the map \<open>chainMap\<close>, the first run turns
  \<^verbatim>\<open>url(../img/hero.png)\<close> into \<^verbatim>\<open>url("asset__img_hero_png.png")\<close>, and the second run, reading
  that reference as a key of the map, turns it into
  \<^verbatim>\<open>url("asset__css_asset__img_hero_png_png.png")\<close>.
\<close>

theorem rewriteCss_counterexample:
  \<open>rewriteCss (exampleEnv netDown) chainMap ''https://www.fruitpunch.ai/css/main.css''
      ''_assets/asset__css_main_css.css'' ''.hero{background:url(../img/hero.png)}'' =
     Some ''.hero{background:url("asset__img_hero_png.png")}'' \<and>
   rewriteCss (exampleEnv netDown) chainMap ''https://www.fruitpunch.ai/css/main.css''
      ''_assets/asset__css_main_css.css'' ''.hero{background:url("asset__img_hero_png.png")}'' =
     Some ''.hero{background:url("asset__css_asset__img_hero_png_png.png")}''\<close>
  by code_simp

text \<open>
  C4, amended: let every reference that the rewrite can write for an entry of the map (the
  path of the local file relative to the directory of the stylesheet) be free of quotes and
  closing parentheses and be left as it stands by the callback, that is, let it not be
  resolved by the map to another file. Then a run of the rewrite that returns a stylesheet
  returns, on that stylesheet and with the same map and paths, the same stylesheet again.
\<close>

theorem rewriteCss_idempotent:
  assumes refs: "\<And>k lp. assetMap k = Some lp \<Longrightarrow> lp \<noteq> [] \<Longrightarrow>
      stableRef e assetMap cssUrl cssLocalPath (cssRelative e cssLocalPath lp)"
    and run: "rewriteCss e assetMap cssUrl cssLocalPath css = Some css1"
  shows "rewriteCss e assetMap cssUrl cssLocalPath css1 = Some css1"
proof -
  let ?f = "cssCallback e assetMap cssUrl cssLocalPath"
  have out: "w = mt \<or> (\<exists>r. w = ''url('' @ [CHR 0x22] @ r @ [CHR 0x22] @ '')'' \<and>
                    (\<forall>c \<in> set r. \<not> isCssDelim c) \<and> (r = [] \<or> ?f w r = Some w))"
    if fw: "?f mt g = Some w" for mt g w
    using fw
  proof (cases rule: cssCallback_cases)
    case same
    then show ?thesis by (rule disjI1)
  next
    case (ref k lp)
    let ?r = "cssRelative e cssLocalPath lp"
    from ref(1,2) have "stableRef e assetMap cssUrl cssLocalPath ?r" by (rule refs)
    then have nd: "\<forall>c \<in> set ?r. \<not> isCssDelim c"
      and st: \<open>?r = [] \<or> ?f (''url("'' @ ?r @ ''")'') ?r = Some (''url("'' @ ?r @ ''")'')\<close>
      unfolding stableRef_def list_all_iff by simp_all
    have w: "w = ''url('' @ [CHR 0x22] @ ?r @ [CHR 0x22] @ '')''" unfolding ref(3) by simp
    from st have "?r = [] \<or> ?f w ?r = Some w" unfolding ref(3) .
    with w nd show ?thesis by blast
  qed
  from run have "replaceAllOpt urlMatch ?f css = Some css1" unfolding rewriteCss_def .
  with out have "replaceAllOpt urlMatch ?f css1 = Some css1" by (rule urlReplace_fixed)
  then show ?thesis unfolding rewriteCss_def .
qed

theorem rewriteCss_idempotent_witness:
  \<open>rewriteCss cssEnv heroMap ''https://www.fruitpunch.ai/css/main.css''
      ''_assets/asset__css_main_css.css'' ''.hero{background:url(../img/hero.png)}'' =
     Some ''.hero{background:url("asset__img_hero_png.png")}'' \<and>
   rewriteCss cssEnv heroMap ''https://www.fruitpunch.ai/css/main.css''
      ''_assets/asset__css_main_css.css'' ''.hero{background:url("asset__img_hero_png.png")}'' =
     Some ''.hero{background:url("asset__img_hero_png.png")}''\<close>
proof -
  let ?u = "''https://www.fruitpunch.ai/css/main.css''"
  let ?p = "''_assets/asset__css_main_css.css''"
  have run: \<open>rewriteCss cssEnv heroMap ?u ?p ''.hero{background:url(../img/hero.png)}'' =
     Some ''.hero{background:url("asset__img_hero_png.png")}''\<close>
    by code_simp
  have st: "stableRef cssEnv heroMap ?u ?p (cssRelative cssEnv ?p ''_assets/asset__img_hero_png.png'')"
    by code_simp
  have refs: "stableRef cssEnv heroMap ?u ?p (cssRelative cssEnv ?p lp)"
    if "heroMap k = Some lp" "lp \<noteq> []" for k lp
  proof -
    from that(1) have "lp = ''_assets/asset__img_hero_png.png''"
      by (simp add: heroMap_def split: if_splits)
    with st show ?thesis by (simp only:)
  qed
  from rewriteCss_idempotent[of heroMap cssEnv ?u ?p, OF refs run] run
  show ?thesis by (simp only: simp_thms)
qed

section \<open>A failed download and the page\<close>













end
